theory Spec2Isabelle
  imports Main "HOL-Library.Char_ord" "HOL-Library.List_Lexorder"
begin

section \<open>Data model\<close>

text \<open>
  A Go \<open>error\<close> is represented by the text its \<open>Error()\<close> method returns; \<open>nil\<close> is
  \<open>None\<close> of \<open>error option\<close>. A Go \<open>string\<close> and a \<open>[]byte\<close> are both sequences of
  8-bit characters, that is HOL's \<open>string\<close>.
\<close>

type_synonym error = string

text \<open>
  \<open>c.Request.Body\<close> is a stream: it delivers chunks of bytes until it ends (\<open>EOF\<close>) or
  breaks with an error (a connection reset in the middle of the body).
\<close>

datatype Reader = EOF | Data string Reader | Broken error

text \<open>
  \<open>io.ReadAll\<close>: the loop that drains the stream. It returns everything read so far,
  and the error that stopped it (\<open>nil\<close> at the end of the stream).
\<close>

fun ReadAll :: "Reader \<Rightarrow> string \<times> error option" where
  "ReadAll EOF = ([], None)"
| "ReadAll (Broken err) = ([], Some err)"
| "ReadAll (Data d r) = (case ReadAll r of (b, err) \<Rightarrow> (d @ b, err))"

text \<open>The bytes the stream holds: what a reader that never fails would deliver.\<close>

fun contents :: "Reader \<Rightarrow> string" where
  "contents EOF = []"
| "contents (Broken err) = []"
| "contents (Data d r) = d @ contents r"

text \<open>
  \<open>http.Request\<close>, the fields the handlers read. \<open>Header\<close> is Go's
  \<open>map[string][]string\<close>. The fields \<open>Method\<close> and \<open>Body\<close> carry the prefix
  \<open>req_\<close> because \<open>RequestPayload\<close> has fields of the same names.
\<close>

record Request =
  req_Method :: string
  RequestURI :: string
  Header :: "string \<rightharpoonup> string list"
  req_Body :: Reader

text \<open>\<open>type RequestPayload struct\<close>, the same in both producers.\<close>

record RequestPayload =
  Method :: string
  URI :: string
  Headers :: "string \<rightharpoonup> string list"
  Body :: string

subsection \<open>Effects\<close>

text \<open>
  What a handler does to the outside is recorded as a trace of events, oldest first:
  a response written with \<open>c.JSON(code, gin.H{...})\<close>, a record given to \<open>slog\<close>, a
  call of the backend's enqueue primitive (\<open>LPush\<close> of go-redis, \<open>ProduceSync\<close> of
  franz-go), and a text printed to the standard output.
\<close>

datatype Level = LevelInfo | LevelError

text \<open>\<open>redis.Options\<close>: the two fields \<open>NewServer\<close> sets. A client is its options.\<close>

record Options =
  Addr :: string
  DB :: nat

text \<open>\<open>kgo.Opt\<close>: the two options \<open>NewServer\<close> passes. A client is its options.\<close>

datatype Opt = ConsumerGroup string | ConsumeTopics "string list"

text \<open>\<open>kgo.Record\<close>, the fields \<open>produce\<close> sets.\<close>

record Record =
  Topic :: string
  Value :: string

datatype Event =
    JSON nat "(string \<times> string) list"
  | Log Level string "(string \<times> string) list"
  | LPushCall Options string string
  | ProduceSyncCall "Opt list" Record
  | Printf string

type_synonym World = "Event list"

definition c_JSON :: "nat \<Rightarrow> (string \<times> string) list \<Rightarrow> World \<Rightarrow> World" where
  "c_JSON code obj w = w @ [JSON code obj]"

definition slog_Error :: "string \<Rightarrow> (string \<times> string) list \<Rightarrow> World \<Rightarrow> World" where
  "slog_Error m attrs w = w @ [Log LevelError m attrs]"

definition slog_Info :: "string \<Rightarrow> (string \<times> string) list \<Rightarrow> World \<Rightarrow> World" where
  "slog_Info m attrs w = w @ [Log LevelInfo m attrs]"

definition StatusOK :: nat where
  "StatusOK = 200"

definition StatusInternalServerError :: nat where
  "StatusInternalServerError = 500"

text \<open>
  The backends, as the clients see them. The answer to a call is a parameter of the
  model: \<open>None\<close> is Go's \<open>nil\<close> error.
\<close>

record Redis =
  Ping :: "Options \<Rightarrow> error option"
  LPush :: "Options \<Rightarrow> string \<Rightarrow> string \<Rightarrow> error option"

record Kafka =
  NewClient :: "Opt list \<Rightarrow> error option"
  ProduceSync :: "Opt list \<Rightarrow> Record \<Rightarrow> error option"

text \<open>
  \<open>type Server struct\<close> of each producer. The Redis server's \<open>Ctx\<close> is
  \<open>context.Background()\<close>, which never cancels, and is left out.
\<close>

record Server_redis =
  RedisClient :: Options

record Server_kafka =
  KafkaClient :: "Opt list"

text \<open>
  \<open>json.Marshal\<close> is a parameter of the handlers: a function from the payload to the
  bytes or an error.
\<close>

type_synonym Marshal = "RequestPayload \<Rightarrow> error + string"

section \<open>The producers\<close>

text \<open>\<open>parseRequest\<close>, the same in both producers.\<close>

definition parseRequest :: "Request \<Rightarrow> error + RequestPayload" where
  "parseRequest r =
     (case ReadAll (req_Body r) of
        (body, Some err) \<Rightarrow> Inl err
      | (body, None) \<Rightarrow>
          Inr \<lparr>Method = req_Method r, URI = RequestURI r, Headers = Header r, Body = body\<rparr>)"

text \<open>\<open>pushToRedis\<close> (Redis producer): the error it returns and the world after it.\<close>

definition pushToRedis ::
  "Marshal \<Rightarrow> Redis \<Rightarrow> Server_redis \<Rightarrow> RequestPayload \<Rightarrow> World \<Rightarrow> error option \<times> World" where
  "pushToRedis marshal R s data w =
     (case marshal data of
        Inl err \<Rightarrow> (Some err, w)
      | Inr jsonData \<Rightarrow>
          (LPush R (RedisClient s) ''request_queue'' jsonData,
           w @ [LPushCall (RedisClient s) ''request_queue'' jsonData]))"

text \<open>\<open>produce\<close> (Kafka producer).\<close>

definition produce ::
  "Marshal \<Rightarrow> Kafka \<Rightarrow> Server_kafka \<Rightarrow> RequestPayload \<Rightarrow> World \<Rightarrow> error option \<times> World" where
  "produce marshal K s data w =
     (case marshal data of
        Inl err \<Rightarrow> (Some err, w)
      | Inr jsonData \<Rightarrow>
          (let record = \<lparr>Topic = ''foo'', Value = jsonData\<rparr>
           in (ProduceSync K (KafkaClient s) record,
               w @ [ProduceSyncCall (KafkaClient s) record])))"

text \<open>\<open>handleRequest\<close> of the Redis producer.\<close>

definition handleRequest_redis ::
  "Marshal \<Rightarrow> Redis \<Rightarrow> Server_redis \<Rightarrow> Request \<Rightarrow> World \<Rightarrow> World" where
  "handleRequest_redis marshal R s r w =
     (case parseRequest r of
        Inl err \<Rightarrow>
          slog_Error ''Failed to read request body'' [(''error'', err)]
            (c_JSON StatusInternalServerError [(''error'', ''Failed to read request body'')] w)
      | Inr requestData \<Rightarrow>
          (case pushToRedis marshal R s requestData w of
             (Some err, w') \<Rightarrow>
               slog_Error ''Failed to push to Redis queue'' [(''error'', err)]
                 (c_JSON StatusInternalServerError
                    [(''error'', ''Failed to push to Redis queue'')] w')
           | (None, w') \<Rightarrow>
               c_JSON StatusOK [(''message'', ''Request added to Redis queue'')]
                 (slog_Info ''Request added to Redis queue''
                    [(''method'', Method requestData), (''uri'', URI requestData)] w')))"

text \<open>\<open>handleRequest\<close> of the Kafka producer (its messages say Redis too).\<close>

definition handleRequest_kafka ::
  "Marshal \<Rightarrow> Kafka \<Rightarrow> Server_kafka \<Rightarrow> Request \<Rightarrow> World \<Rightarrow> World" where
  "handleRequest_kafka marshal K s r w =
     (case parseRequest r of
        Inl err \<Rightarrow>
          slog_Error ''Failed to read request body'' [(''error'', err)]
            (c_JSON StatusInternalServerError [(''error'', ''Failed to read request body'')] w)
      | Inr requestData \<Rightarrow>
          (case produce marshal K s requestData w of
             (Some err, w') \<Rightarrow>
               slog_Error ''Failed to push to Redis queue'' [(''error'', err)]
                 (c_JSON StatusInternalServerError
                    [(''error'', ''Failed to push to Redis queue'')] w')
           | (None, w') \<Rightarrow>
               c_JSON StatusOK [(''message'', ''Request added to Redis queue'')]
                 (slog_Info ''Request added to Redis queue''
                    [(''method'', Method requestData), (''uri'', URI requestData)] w')))"

subsection \<open>Reading a trace\<close>

fun is_enqueue :: "Event \<Rightarrow> bool" where
  "is_enqueue (LPushCall c k v) = True"
| "is_enqueue (ProduceSyncCall c r) = True"
| "is_enqueue e = False"

fun is_response :: "Event \<Rightarrow> bool" where
  "is_response (JSON code obj) = True"
| "is_response e = False"

fun is_log :: "Event \<Rightarrow> bool" where
  "is_log (Log l m attrs) = True"
| "is_log e = False"

definition enqueues :: "World \<Rightarrow> Event list" where
  "enqueues w = filter is_enqueue w"

definition responses :: "World \<Rightarrow> Event list" where
  "responses w = filter is_response w"

definition logged :: "World \<Rightarrow> Event list" where
  "logged w = filter is_log w"

section \<open>The printer\<close>

text \<open>
  The third program (the second \<open>package main\<close> in \<open>producer.go\<close>) forwards nothing:
  its handler prints the request and answers 200. \<open>%s\<close> prints a \<open>[]string\<close> as its
  elements between brackets, separated by blanks. The loop over the header map runs
  in an order Go leaves open: the keys in the order of the run are the parameter
  \<open>keys\<close>.
\<close>

fun Join :: "string list \<Rightarrow> string \<Rightarrow> string" where
  "Join [] sep = []"
| "Join [x] sep = x"
| "Join (x # y # ys) sep = x @ sep @ Join (y # ys) sep"

definition handler_printer :: "string list \<Rightarrow> Request \<Rightarrow> World \<Rightarrow> World" where
  "handler_printer keys r w =
     (let w1 = w @ [Printf (''Method: '' @ req_Method r @ [CHR 0x0A]),
                    Printf (''URI: '' @ RequestURI r @ [CHR 0x0A]),
                    Printf (''Headers:'' @ [CHR 0x0A])];
          w2 = w1 @ map (\<lambda>k. Printf (k @ '': '' @ ''['' @
                           Join (case Header r k of Some v \<Rightarrow> v | None \<Rightarrow> []) '' '' @
                           '']'' @ [CHR 0x0A])) keys;
          w3 = (if req_Method r = ''POST'' \<or> req_Method r = ''PUT''
                then (case ReadAll (req_Body r) of
                        (body, None) \<Rightarrow> w2 @ [Printf (''Body: '' @ body @ [CHR 0x0A])]
                      | (body, Some err) \<Rightarrow> w2)
                else w2)
      in c_JSON StatusOK [(''message'', ''Request received and printed to console'')] w3)"

section \<open>Process start\<close>

text \<open>
  The command line, as the flags it sets (name and value, in order). \<open>flag.Parse\<close>
  ends the process when a flag is not defined; a flag given twice keeps its last
  value; \<open>flag.String\<close> gives the default when the flag is absent.
\<close>

definition flag_Parse :: "string list \<Rightarrow> (string \<times> string) list \<Rightarrow> bool" where
  "flag_Parse defined args = list_all (\<lambda>(name, v). name \<in> set defined) args"

definition flag_String :: "string \<Rightarrow> string \<Rightarrow> (string \<times> string) list \<Rightarrow> string" where
  "flag_String name dflt args =
     (case map_of (rev args) name of Some v \<Rightarrow> v | None \<Rightarrow> dflt)"

text \<open>\<open>strings.Split(s, sep)\<close> for a separator of one character.\<close>

fun Split :: "string \<Rightarrow> char \<Rightarrow> string list" where
  "Split [] sep = [[]]"
| "Split (c # cs) sep =
     (if c = sep then [] # Split cs sep
      else (case Split cs sep of x # xs \<Rightarrow> (c # x) # xs | [] \<Rightarrow> [[c]]))"

text \<open>\<open>NewServer\<close> of the Redis producer: it makes the client and pings the server.\<close>

definition NewServer_redis :: "Redis \<Rightarrow> string \<Rightarrow> error + Server_redis" where
  "NewServer_redis R redisAddr =
     (let rdb = \<lparr>Addr = redisAddr, DB = 0\<rparr>
      in case Ping R rdb of
           Some err \<Rightarrow> Inl (''failed to connect to Redis at '' @ redisAddr @ '': '' @ err)
         | None \<Rightarrow> Inr \<lparr>RedisClient = rdb\<rparr>)"

text \<open>
  \<open>NewServer\<close> of the Kafka producer: it makes the client from two fixed options.
  \<open>kgo.NewClient\<close> answers with an error or none; the parameter \<open>seeds\<close> is not used
  in the body.
\<close>

definition NewServer_kafka :: "Kafka \<Rightarrow> string list \<Rightarrow> error + Server_kafka" where
  "NewServer_kafka K seeds =
     (let opts = [ConsumerGroup ''my-group-identifier'', ConsumeTopics [''foo'']]
      in case NewClient K opts of
           Some err \<Rightarrow> Inl err
         | None \<Rightarrow> Inr \<lparr>KafkaClient = opts\<rparr>)"

text \<open>
  A route of the gin router: \<open>r.Any(path, handler)\<close>. Each program registers one
  route, and its handler is the program's only handler.
\<close>

datatype Route = Any string

text \<open>
  What \<open>main\<close> comes to: the process has ended (with the trace so far), or it
  listens on \<open>:8080\<close> with a server value and the routes registered.
\<close>

datatype 's Process = Exit World | Listen World 's "Route list"

text \<open>
  \<open>main\<close> of the Redis producer. \<open>run\<close> is the error \<open>r.Run(":8080")\<close> returns when
  it cannot listen, \<open>None\<close> when it listens.
\<close>

definition main_redis ::
  "Redis \<Rightarrow> error option \<Rightarrow> (string \<times> string) list \<Rightarrow> Server_redis Process" where
  "main_redis R run args =
     (if \<not> flag_Parse [''redis''] args then Exit []
      else
        (let redisAddr = flag_String ''redis'' ''localhost:6379'' args
         in case NewServer_redis R redisAddr of
              Inl err \<Rightarrow> Exit (slog_Error ''Failed to initialize server'' [(''error'', err)] [])
            | Inr server \<Rightarrow>
                (let w = slog_Info ''Connected to Redis'' [(''address'', redisAddr)] []
                 in case run of
                      Some err \<Rightarrow>
                        Exit (slog_Error ''Failed to start server'' [(''error'', err)] w)
                    | None \<Rightarrow> Listen w server [Any ''/*proxyPath''])))"

text \<open>\<open>main\<close> of the Kafka producer.\<close>

definition main_kafka ::
  "Kafka \<Rightarrow> error option \<Rightarrow> (string \<times> string) list \<Rightarrow> Server_kafka Process" where
  "main_kafka K run args =
     (if \<not> flag_Parse [''kafka address''] args then Exit []
      else
        (let kafkaAddrRaw = flag_String ''kafka address'' ''localhost:9092'' args;
             kafkaAddr = Split kafkaAddrRaw CHR '',''
         in case NewServer_kafka K kafkaAddr of
              Inl err \<Rightarrow> Exit (slog_Error ''Failed to initialize server'' [(''error'', err)] [])
            | Inr server \<Rightarrow>
                (let w = slog_Info ''Connected to kafka'' [(''address'', kafkaAddrRaw)] []
                 in case run of
                      Some err \<Rightarrow>
                        Exit (slog_Error ''Failed to start server'' [(''error'', err)] w)
                    | None \<Rightarrow> Listen w server [Any ''/*proxyPath''])))"

text \<open>
  The life of a process: a process that has ended handles nothing; a listening one
  passes every request that arrives to the handler of its route, with the server
  value \<open>main\<close> made. Requests are taken one after the other.
\<close>

fun serve_redis :: "Marshal \<Rightarrow> Redis \<Rightarrow> Server_redis Process \<Rightarrow> Request list \<Rightarrow> World" where
  "serve_redis marshal R (Exit w) rs = w"
| "serve_redis marshal R (Listen w s routes) rs =
     foldl (\<lambda>w r. handleRequest_redis marshal R s r w) w rs"

fun serve_kafka :: "Marshal \<Rightarrow> Kafka \<Rightarrow> Server_kafka Process \<Rightarrow> Request list \<Rightarrow> World" where
  "serve_kafka marshal K (Exit w) rs = w"
| "serve_kafka marshal K (Listen w s routes) rs =
     foldl (\<lambda>w r. handleRequest_kafka marshal K s r w) w rs"

text \<open>The routes a process serves (none once it has ended).\<close>

fun routes_of :: "'s Process \<Rightarrow> Route list" where
  "routes_of (Exit w) = []"
| "routes_of (Listen w s routes) = routes"

section \<open>Stages and outcomes\<close>

text \<open>The status code of a response event (0 for an event that is no response).\<close>

fun status :: "Event \<Rightarrow> nat" where
  "status (JSON code obj) = code"
| "status e = 0"

text \<open>
  Two streams that differ at most in the text of the error that breaks them, two
  requests that differ at most so, and two answers (of \<open>json.Marshal\<close>, of the backend)
  that differ at most in the error's text.
\<close>

fun same_but_text_reader :: "Reader \<Rightarrow> Reader \<Rightarrow> bool" where
  "same_but_text_reader EOF EOF = True"
| "same_but_text_reader (Broken e) (Broken e') = True"
| "same_but_text_reader (Data d r) (Data d' r') = (d = d' \<and> same_but_text_reader r r')"
| "same_but_text_reader r r' = False"

definition same_but_text_request :: "Request \<Rightarrow> Request \<Rightarrow> bool" where
  "same_but_text_request r r' =
     (req_Method r = req_Method r' \<and> RequestURI r = RequestURI r' \<and> Header r = Header r'
      \<and> same_but_text_reader (req_Body r) (req_Body r'))"

fun same_but_text_sum :: "error + 'a \<Rightarrow> error + 'a \<Rightarrow> bool" where
  "same_but_text_sum (Inl e) (Inl e') = True"
| "same_but_text_sum (Inr x) (Inr y) = (x = y)"
| "same_but_text_sum a b = False"

fun same_but_text_opt :: "error option \<Rightarrow> error option \<Rightarrow> bool" where
  "same_but_text_opt None None = True"
| "same_but_text_opt (Some e) (Some e') = True"
| "same_but_text_opt a b = False"

text \<open>
  Where one request ends, by the stage results alone: the terminal states of the
  bridge (capture failed, serialize failed, enqueue failed, enqueued).
\<close>

datatype Outcome = CaptureFailed error | SerializeFailed error | EnqueueFailed error | Enqueued

definition outcome_redis :: "Marshal \<Rightarrow> Redis \<Rightarrow> Server_redis \<Rightarrow> Request \<Rightarrow> Outcome" where
  "outcome_redis marshal R s r =
     (case parseRequest r of
        Inl err \<Rightarrow> CaptureFailed err
      | Inr p \<Rightarrow>
          (case marshal p of
             Inl err \<Rightarrow> SerializeFailed err
           | Inr jsonData \<Rightarrow>
               (case LPush R (RedisClient s) ''request_queue'' jsonData of
                  Some err \<Rightarrow> EnqueueFailed err
                | None \<Rightarrow> Enqueued)))"

definition outcome_kafka :: "Marshal \<Rightarrow> Kafka \<Rightarrow> Server_kafka \<Rightarrow> Request \<Rightarrow> Outcome" where
  "outcome_kafka marshal K s r =
     (case parseRequest r of
        Inl err \<Rightarrow> CaptureFailed err
      | Inr p \<Rightarrow>
          (case marshal p of
             Inl err \<Rightarrow> SerializeFailed err
           | Inr jsonData \<Rightarrow>
               (case ProduceSync K (KafkaClient s) \<lparr>Topic = ''foo'', Value = jsonData\<rparr> of
                  Some err \<Rightarrow> EnqueueFailed err
                | None \<Rightarrow> Enqueued)))"

section \<open>The wire format\<close>

text \<open>
  The bytes pushed to the backend are \<open>json.Marshal\<close> of the payload. The encoder and
  the decoder are Go's \<open>encoding/json\<close>, with \<open>unicode/utf8\<close> and \<open>unicode/utf16\<close>
  under them; they are not part of this repository. They are modelled here after the
  library, for the one type the producers marshal: a struct of three strings and a
  \<open>map[string][]string\<close>. A \<open>nil\<close> map or slice is not told apart from an empty one
  (the library writes \<open>null\<close> for the first and reads it back as \<open>nil\<close>).
\<close>

subsection \<open>UTF-8\<close>

text \<open>
  Runes are natural numbers. Shifts and masks on the bytes are written as
  multiplication, \<open>div\<close> and \<open>mod\<close> by the powers of two; no value leaves 21 bits.
\<close>

definition RuneError :: nat where
  "RuneError = 0xFFFD"

definition MaxRune :: nat where
  "MaxRune = 0x10FFFF"

text \<open>
  The table \<open>first\<close> of \<open>unicode/utf8\<close>, read for a leading byte between \<open>0xC2\<close> and
  \<open>0xF4\<close>: the width of the encoding and the range accepted for the second byte.
\<close>

definition rune_size :: "nat \<Rightarrow> nat" where
  "rune_size s0 = (if s0 < 0xE0 then 2 else if s0 < 0xF0 then 3 else 4)"

definition accept_lo :: "nat \<Rightarrow> nat" where
  "accept_lo s0 = (if s0 = 0xE0 then 0xA0 else if s0 = 0xF0 then 0x90 else 0x80)"

definition accept_hi :: "nat \<Rightarrow> nat" where
  "accept_hi s0 = (if s0 = 0xED then 0x9F else if s0 = 0xF4 then 0x8F else 0xBF)"

text \<open>
  \<open>utf8.DecodeRuneInString\<close>: the first rune of \<open>s\<close> and its width in bytes;
  \<open>(RuneError, 0)\<close> for the empty string and \<open>(RuneError, 1)\<close> for bytes that are not
  UTF-8.
\<close>

definition DecodeRune :: "string \<Rightarrow> nat \<times> nat" where
  "DecodeRune s =
     (if length s < 1 then (RuneError, 0)
      else
        (let s0 = of_char (s ! 0) :: nat
         in if s0 < 0x80 then (s0, 1)
            else if s0 < 0xC2 \<or> 0xF4 < s0 then (RuneError, 1)
            else if length s < rune_size s0 then (RuneError, 1)
            else
              (let s1 = of_char (s ! 1) :: nat
               in if s1 < accept_lo s0 \<or> accept_hi s0 < s1 then (RuneError, 1)
                  else if rune_size s0 \<le> 2 then ((s0 mod 32) * 64 + s1 mod 64, 2)
                  else
                    (let s2 = of_char (s ! 2) :: nat
                     in if s2 < 0x80 \<or> 0xBF < s2 then (RuneError, 1)
                        else if rune_size s0 \<le> 3
                        then ((s0 mod 16) * 4096 + (s1 mod 64) * 64 + s2 mod 64, 3)
                        else
                          (let s3 = of_char (s ! 3) :: nat
                           in if s3 < 0x80 \<or> 0xBF < s3 then (RuneError, 1)
                              else ((s0 mod 8) * 262144 + (s1 mod 64) * 4096 +
                                    (s2 mod 64) * 64 + s3 mod 64, 4))))))"

text \<open>\<open>utf8.AppendRune\<close>: the bytes of a rune; a surrogate or a value out of range is
  written as \<open>RuneError\<close>.\<close>

definition EncodeRune3 :: "nat \<Rightarrow> string" where
  "EncodeRune3 r =
     [char_of (0xE0 + r div 4096), char_of (0x80 + (r div 64) mod 64), char_of (0x80 + r mod 64)]"

definition EncodeRune :: "nat \<Rightarrow> string" where
  "EncodeRune r =
     (if r \<le> 0x7F then [char_of r]
      else if r \<le> 0x7FF then [char_of (0xC0 + r div 64), char_of (0x80 + r mod 64)]
      else if MaxRune < r \<or> (0xD800 \<le> r \<and> r \<le> 0xDFFF) then EncodeRune3 RuneError
      else if r \<le> 0xFFFF then EncodeRune3 r
      else [char_of (0xF0 + r div 262144), char_of (0x80 + (r div 4096) mod 64),
            char_of (0x80 + (r div 64) mod 64), char_of (0x80 + r mod 64)])"

subsection \<open>The encoder\<close>

text \<open>
  \<open>appendString\<close> of \<open>encoding/json\<close> with \<open>escapeHTML\<close> set, as \<open>json.Marshal\<close> calls
  it. \<open>htmlSafe\<close> is the table \<open>htmlSafeSet\<close>; \<open>escape\<close> is the loop over the bytes
  (what stands between the two quotes) and \<open>escape_ascii\<close> its \<open>switch\<close> for one
  byte below \<open>0x80\<close>. Bytes that are not UTF-8 are written as the escape of U+FFFD.
  Backspace and form feed have their two-character escapes, as since Go 1.22; older
  releases wrote them as u-escapes, which the decoder reads back the same.
\<close>

definition hex :: "nat \<Rightarrow> char" where
  "hex n = ''0123456789abcdef'' ! n"

definition htmlSafe :: "char \<Rightarrow> bool" where
  "htmlSafe c = (0x20 \<le> (of_char c :: nat) \<and> (of_char c :: nat) < 0x80 \<and>
     c \<noteq> CHR 0x22 \<and> c \<noteq> CHR ''&'' \<and> c \<noteq> CHR ''<'' \<and> c \<noteq> CHR ''>'' \<and> c \<noteq> CHR 0x5C)"

definition escape_ascii :: "char \<Rightarrow> string" where
  "escape_ascii b =
     (if b = CHR 0x5C \<or> b = CHR 0x22 then [CHR 0x5C, b]
      else if b = CHR 0x08 then [CHR 0x5C, CHR ''b'']
      else if b = CHR 0x0C then [CHR 0x5C, CHR ''f'']
      else if b = CHR 0x0A then [CHR 0x5C, CHR ''n'']
      else if b = CHR 0x0D then [CHR 0x5C, CHR ''r'']
      else if b = CHR 0x09 then [CHR 0x5C, CHR ''t'']
      else [CHR 0x5C, CHR ''u'', CHR ''0'', CHR ''0'', hex (of_char b div 16), hex (of_char b mod 16)])"

function escape :: "string \<Rightarrow> string" where
  "escape [] = []"
| "escape (b # bs) =
     (if (of_char b :: nat) < 0x80 then
        (if htmlSafe b then b # escape bs else escape_ascii b @ escape bs)
      else
        (case DecodeRune (b # bs) of
           (c, sz) \<Rightarrow>
             if c = RuneError \<and> sz = 1
             then CHR 0x5C # ''ufffd'' @ escape (drop sz (b # bs))
             else if c = 0x2028 \<or> c = 0x2029
             then CHR 0x5C # ''u202'' @ [hex (c mod 16)] @ escape (drop sz (b # bs))
             else take sz (b # bs) @ escape (drop sz (b # bs))))"
  by pat_completeness auto
termination
proof -
  have pos: "1 \<le> sz" if "DecodeRune (b # bs) = (c, sz)" for b bs c sz
    using that by (auto simp add: DecodeRune_def Let_def split: if_splits)
  show ?thesis
    by (relation "measure length") (auto dest: pos [OF sym])
qed

definition appendString :: "string \<Rightarrow> string" where
  "appendString s = CHR 0x22 # escape s @ [CHR 0x22]"

text \<open>
  A \<open>[]string\<close> is written as an array; a map as an object, its keys sorted as Go
  compares strings (byte by byte, the order of \<open>string\<close> here); the struct as an
  object with the names of its \<open>json\<close> tags, in the order of the fields. For this type
  \<open>json.Marshal\<close> returns no error.
\<close>

definition encode_slice :: "string list \<Rightarrow> string" where
  "encode_slice vs = ''['' @ Join (map appendString vs) '','' @ '']''"

definition encode_map :: "(string \<rightharpoonup> string list) \<Rightarrow> string" where
  "encode_map m =
     ''{'' @ Join (map (\<lambda>k. appendString k @ '':'' @
                         encode_slice (case m k of Some v \<Rightarrow> v | None \<Rightarrow> []))
                 (sorted_list_of_set (dom m))) '','' @ ''}''"

definition json_Marshal :: "RequestPayload \<Rightarrow> error + string" where
  "json_Marshal p =
     Inr (''{'' @ appendString ''method'' @ '':'' @ appendString (Method p) @ '','' @
          appendString ''uri'' @ '':'' @ appendString (URI p) @ '','' @
          appendString ''headers'' @ '':'' @ encode_map (Headers p) @ '','' @
          appendString ''body'' @ '':'' @ appendString (Body p) @ ''}'')"

subsection \<open>The decoder\<close>

text \<open>
  \<open>getu4\<close> of \<open>encoding/json\<close> reads the four hexadecimal digits of a u-escape
  (\<open>None\<close> for its \<open>-1\<close>); \<open>utf16.IsSurrogate\<close> and \<open>utf16.DecodeRune\<close> join the two
  halves of a surrogate pair.
\<close>

definition hexval :: "char \<Rightarrow> nat option" where
  "hexval c =
     (let n = of_char c :: nat
      in if 0x30 \<le> n \<and> n \<le> 0x39 then Some (n - 0x30)
         else if 0x61 \<le> n \<and> n \<le> 0x66 then Some (n - 0x61 + 10)
         else if 0x41 \<le> n \<and> n \<le> 0x46 then Some (n - 0x41 + 10)
         else None)"

definition getu4 :: "string \<Rightarrow> nat option" where
  "getu4 s =
     (if length s < 6 \<or> s ! 0 \<noteq> CHR 0x5C \<or> s ! 1 \<noteq> CHR ''u'' then None
      else
        (case (hexval (s ! 2), hexval (s ! 3), hexval (s ! 4), hexval (s ! 5)) of
           (Some a, Some b, Some c, Some d) \<Rightarrow> Some (((a * 16 + b) * 16 + c) * 16 + d)
         | _ \<Rightarrow> None))"

definition IsSurrogate :: "nat \<Rightarrow> bool" where
  "IsSurrogate r = (0xD800 \<le> r \<and> r < 0xE000)"

definition utf16_DecodeRune :: "nat \<Rightarrow> nat option \<Rightarrow> nat" where
  "utf16_DecodeRune r1 r2' =
     (case r2' of
        None \<Rightarrow> RuneError
      | Some r2 \<Rightarrow>
          if 0xD800 \<le> r1 \<and> r1 < 0xDC00 \<and> 0xDC00 \<le> r2 \<and> r2 < 0xE000
          then (r1 - 0xD800) * 1024 + (r2 - 0xDC00) + 0x10000
          else RuneError)"

text \<open>
  The scanner inside a string literal, from the byte after the opening quote: the
  text of the literal and the input after the closing quote. It refuses control
  characters and escapes that JSON does not have.
\<close>

fun prepend :: "'a list \<Rightarrow> ('a list \<times> 'b) option \<Rightarrow> ('a list \<times> 'b) option" where
  "prepend x None = None"
| "prepend x (Some (l, r)) = Some (x @ l, r)"

fun scan_literal :: "string \<Rightarrow> (string \<times> string) option" where
  "scan_literal [] = None"
| "scan_literal (c # cs) =
     (if c = CHR 0x22 then Some ([], cs)
      else if c = CHR 0x5C then
        (case cs of
           [] \<Rightarrow> None
         | e # es \<Rightarrow>
             if e = CHR ''b'' \<or> e = CHR ''f'' \<or> e = CHR ''n'' \<or> e = CHR ''r'' \<or> e = CHR ''t'' \<or>
                e = CHR 0x5C \<or> e = CHR ''/'' \<or> e = CHR 0x22
             then prepend [c, e] (scan_literal es)
             else if e = CHR ''u'' then
               (case es of
                  h1 # h2 # h3 # h4 # es' \<Rightarrow>
                    if hexval h1 \<noteq> None \<and> hexval h2 \<noteq> None \<and> hexval h3 \<noteq> None \<and>
                       hexval h4 \<noteq> None
                    then prepend [c, e, h1, h2, h3, h4] (scan_literal es')
                    else None
                | _ \<Rightarrow> None)
             else None)
      else if (of_char c :: nat) < 0x20 then None
      else prepend [c] (scan_literal cs))"

text \<open>
  \<open>unquoteBytes\<close> of \<open>encoding/json\<close>, given the text between the quotes. Its first
  loop (\<open>usual_prefix\<close>) measures the prefix that needs no work; its second loop
  (\<open>unquote_loop\<close>) decodes the rest, escape by escape and rune by rune.
\<close>

function usual_prefix :: "string \<Rightarrow> nat" where
  "usual_prefix [] = 0"
| "usual_prefix (c # cs) =
     (if c = CHR 0x5C \<or> c = CHR 0x22 \<or> (of_char c :: nat) < 0x20 then 0
      else if (of_char c :: nat) < 0x80 then 1 + usual_prefix cs
      else
        (case DecodeRune (c # cs) of
           (rr, sz) \<Rightarrow>
             if rr = RuneError \<and> sz = 1 then 0
             else sz + usual_prefix (drop sz (c # cs))))"
  by pat_completeness auto
termination
proof -
  have pos: "1 \<le> sz" if "DecodeRune (b # bs) = (c, sz)" for b bs c sz
    using that by (auto simp add: DecodeRune_def Let_def split: if_splits)
  show ?thesis
    by (relation "measure length") (auto dest: pos [OF sym])
qed

fun cons_opt :: "string \<Rightarrow> string option \<Rightarrow> string option" where
  "cons_opt x None = None"
| "cons_opt x (Some t) = Some (x @ t)"

function unquote_loop :: "string \<Rightarrow> string option" where
  "unquote_loop [] = Some []"
| "unquote_loop (c # cs) =
     (if c = CHR 0x5C then
        (case cs of
           [] \<Rightarrow> None
         | e # es \<Rightarrow>
             if e = CHR 0x22 \<or> e = CHR 0x5C \<or> e = CHR ''/'' \<or> e = CHR 0x27
             then cons_opt [e] (unquote_loop es)
             else if e = CHR ''b'' then cons_opt [CHR 0x08] (unquote_loop es)
             else if e = CHR ''f'' then cons_opt [CHR 0x0C] (unquote_loop es)
             else if e = CHR ''n'' then cons_opt [CHR 0x0A] (unquote_loop es)
             else if e = CHR ''r'' then cons_opt [CHR 0x0D] (unquote_loop es)
             else if e = CHR ''t'' then cons_opt [CHR 0x09] (unquote_loop es)
             else if e = CHR ''u'' then
               (case getu4 (c # cs) of
                  None \<Rightarrow> None
                | Some rr \<Rightarrow>
                    if IsSurrogate rr then
                      (let dec = utf16_DecodeRune rr (getu4 (drop 6 (c # cs)))
                       in if dec \<noteq> RuneError
                          then cons_opt (EncodeRune dec) (unquote_loop (drop 12 (c # cs)))
                          else cons_opt (EncodeRune RuneError) (unquote_loop (drop 6 (c # cs))))
                    else cons_opt (EncodeRune rr) (unquote_loop (drop 6 (c # cs))))
             else None)
      else if c = CHR 0x22 \<or> (of_char c :: nat) < 0x20 then None
      else if (of_char c :: nat) < 0x80 then cons_opt [c] (unquote_loop cs)
      else
        (case DecodeRune (c # cs) of
           (rr, sz) \<Rightarrow> cons_opt (EncodeRune rr) (unquote_loop (drop sz (c # cs)))))"
  by pat_completeness auto
termination
proof -
  have pos: "1 \<le> sz" if "DecodeRune (b # bs) = (c, sz)" for b bs c sz
    using that by (auto simp add: DecodeRune_def Let_def split: if_splits)
  show ?thesis
    by (relation "measure length") (auto dest: pos [OF sym])
qed

definition unquote :: "string \<Rightarrow> string option" where
  "unquote s =
     (let r = usual_prefix s
      in if r = length s then Some s else cons_opt (take r s) (unquote_loop (drop r s)))"

text \<open>
  The decoder is modelled for documents without blanks whose values are string
  literals, arrays of them, and objects: the documents \<open>json.Marshal\<close> writes for a
  \<open>RequestPayload\<close>. One pass splits the document into delimiters and string
  literals, already unquoted; anything else is an error.
\<close>

datatype Token = LBrace | RBrace | LBrack | RBrack | Colon | Comma | Str string

definition delimiter :: "char \<Rightarrow> Token option" where
  "delimiter c =
     (if c = CHR ''{'' then Some LBrace else if c = CHR ''}'' then Some RBrace
      else if c = CHR ''['' then Some LBrack else if c = CHR '']'' then Some RBrack
      else if c = CHR '':'' then Some Colon else if c = CHR '','' then Some Comma
      else None)"

fun cons_tok :: "Token option \<Rightarrow> Token list option \<Rightarrow> Token list option" where
  "cons_tok (Some t) (Some ts) = Some (t # ts)"
| "cons_tok a b = None"

function tokens :: "string \<Rightarrow> Token list option" where
  "tokens [] = Some []"
| "tokens (c # cs) =
     (if c = CHR 0x22 then
        (case scan_literal cs of
           None \<Rightarrow> None
         | Some (l, rest) \<Rightarrow> cons_tok (map_option Str (unquote l)) (tokens rest))
      else cons_tok (delimiter c) (tokens cs))"
  by pat_completeness auto
termination
proof -
  have pre: "\<exists>l'. y = Some (l', r)" if "prepend x y = Some (l, r)" for x :: string and y l and r :: string
    using that by (cases y) auto
  have scan: "length r \<le> length cs" if "scan_literal cs = Some (l, r)" for cs l r
    using that
    by (induction cs arbitrary: l r rule: scan_literal.induct)
       (fastforce split: if_splits list.splits dest!: pre)+
  show ?thesis
    by (relation "measure length") (auto dest!: scan scan [OF sym])
qed

text \<open>
  A \<open>[]string\<close> value (\<open>slice_value\<close>; \<open>elements\<close> reads what follows the opening
  bracket), a \<open>map[string][]string\<close> value (\<open>map_value\<close>; a key given twice keeps its last
  value), and the members of the struct (\<open>fields\<close>): a member named after a field
  sets the field, in any order; the map of \<open>headers\<close> is added to the one already
  there. Other names are an error of the model.
\<close>

fun elements :: "Token list \<Rightarrow> (string list \<times> Token list) option" where
  "elements (Str v # Comma # ts) =
     (case elements ts of None \<Rightarrow> None | Some (vs, r) \<Rightarrow> Some (v # vs, r))"
| "elements (Str v # RBrack # ts) = Some ([v], ts)"
| "elements ts = None"

fun slice_value :: "Token list \<Rightarrow> (string list \<times> Token list) option" where
  "slice_value (LBrack # RBrack # ts) = Some ([], ts)"
| "slice_value (LBrack # ts) = elements ts"
| "slice_value ts = None"

function (sequential) members ::
  "Token list \<Rightarrow> ((string \<times> string list) list \<times> Token list) option" where
  "members (Str k # Colon # ts) =
     (case slice_value ts of
        None \<Rightarrow> None
      | Some (v, r) \<Rightarrow>
          (case r of
             Comma # r' \<Rightarrow>
               (case members r' of None \<Rightarrow> None | Some (kvs, r'') \<Rightarrow> Some ((k, v) # kvs, r''))
           | RBrace # r' \<Rightarrow> Some ([(k, v)], r')
           | _ \<Rightarrow> None))"
| "members ts = None"
  by pat_completeness auto
termination
proof -
  have el: "length r < length ts" if "elements ts = Some (vs, r)" for ts vs r
    using that
    by (induction ts arbitrary: vs r rule: elements.induct)
       (fastforce split: option.splits)+
  have sl: "length r < length ts" if "slice_value ts = Some (vs, r)" for ts vs r
    using that el by (cases ts rule: slice_value.cases) fastforce+
  show ?thesis
    by (relation "measure length") (auto dest!: sl sl [OF sym])
qed

fun map_value :: "Token list \<Rightarrow> ((string \<rightharpoonup> string list) \<times> Token list) option" where
  "map_value (LBrace # RBrace # ts) = Some (Map.empty, ts)"
| "map_value (LBrace # ts) =
     (case members ts of
        None \<Rightarrow> None
      | Some (kvs, r) \<Rightarrow> Some (foldl (\<lambda>m (k, v). m(k \<mapsto> v)) Map.empty kvs, r))"
| "map_value ts = None"

definition set_field ::
  "RequestPayload \<Rightarrow> string \<Rightarrow> Token list \<Rightarrow> (RequestPayload \<times> Token list) option" where
  "set_field p k ts =
     (if k = ''method'' then
        (case ts of Str v # r \<Rightarrow> Some (p\<lparr>Method := v\<rparr>, r) | _ \<Rightarrow> None)
      else if k = ''uri'' then
        (case ts of Str v # r \<Rightarrow> Some (p\<lparr>URI := v\<rparr>, r) | _ \<Rightarrow> None)
      else if k = ''headers'' then
        (case map_value ts of
           None \<Rightarrow> None
         | Some (m, r) \<Rightarrow> Some (p\<lparr>Headers := Headers p ++ m\<rparr>, r))
      else if k = ''body'' then
        (case ts of Str v # r \<Rightarrow> Some (p\<lparr>Body := v\<rparr>, r) | _ \<Rightarrow> None)
      else None)"

function (sequential) fields ::
  "RequestPayload \<Rightarrow> Token list \<Rightarrow> (RequestPayload \<times> Token list) option" where
  "fields p (Str k # Colon # ts) =
     (case set_field p k ts of
        None \<Rightarrow> None
      | Some (p', r) \<Rightarrow>
          (case r of
             Comma # r' \<Rightarrow> fields p' r'
           | RBrace # r' \<Rightarrow> Some (p', r')
           | _ \<Rightarrow> None))"
| "fields p ts = None"
  by pat_completeness auto
termination
proof -
  have el: "length r < length ts" if "elements ts = Some (vs, r)" for ts vs r
    using that
    by (induction ts arbitrary: vs r rule: elements.induct)
       (fastforce split: option.splits)+
  have sl: "length r < length ts" if "slice_value ts = Some (vs, r)" for ts vs r
    using that el by (cases ts rule: slice_value.cases) fastforce+
  have me: "length r < length ts" if "members ts = Some (kvs, r)" for ts kvs r
    using that
  proof (induction ts arbitrary: kvs r rule: members.induct)
    case (1 k ts)
    then show ?case
      by (fastforce split: option.splits list.splits Token.splits dest!: sl)
  qed simp_all
  have mv: "length r < length ts" if "map_value ts = Some (m, r)" for ts m r
    using that me by (cases ts rule: map_value.cases) (fastforce split: option.splits)+
  have sf: "length r < length ts" if "set_field p k ts = Some (p', r)" for p k ts p' r
    using that mv
    by (fastforce simp add: set_field_def split: if_splits list.splits Token.splits option.splits)
  show ?thesis
    by (relation "measure (\<lambda>(p, ts). length ts)") (auto dest!: sf sf [OF sym])
qed

text \<open>\<open>json.Unmarshal(data, &p)\<close> for a zero \<open>p\<close> of type \<open>RequestPayload\<close>.\<close>

definition json_Unmarshal :: "string \<Rightarrow> error + RequestPayload" where
  "json_Unmarshal data =
     (case tokens data of
        None \<Rightarrow> Inl ''json: cannot unmarshal''
      | Some ts \<Rightarrow>
          (case ts of
             LBrace # ts' \<Rightarrow>
               (if ts' = [RBrace]
                then Inr \<lparr>Method = [], URI = [], Headers = Map.empty, Body = []\<rparr>
                else
                  (case fields \<lparr>Method = [], URI = [], Headers = Map.empty, Body = []\<rparr> ts' of
                     Some (p, []) \<Rightarrow> Inr p
                   | _ \<Rightarrow> Inl ''json: cannot unmarshal''))
           | _ \<Rightarrow> Inl ''json: cannot unmarshal''))"

text \<open>\<open>utf8.ValidString\<close>: the string is a sequence of well-formed UTF-8 encodings.\<close>

function ValidString :: "string \<Rightarrow> bool" where
  "ValidString [] = True"
| "ValidString (c # cs) =
     (case DecodeRune (c # cs) of
        (r, sz) \<Rightarrow> \<not> (r = RuneError \<and> sz = 1) \<and> ValidString (drop sz (c # cs)))"
  by pat_completeness auto
termination
proof -
  have pos: "1 \<le> sz" if "DecodeRune (b # bs) = (c, sz)" for b bs c sz
    using that by (auto simp add: DecodeRune_def Let_def split: if_splits)
  show ?thesis
    by (relation "measure length") (auto dest: pos [OF sym])
qed

text \<open>
  The tokens of an array of strings, of a map and of a payload: what the decoder's
  first pass makes of the encoder's output, used to state the lemmas on the two
  passes.
\<close>

fun separated :: "'a \<Rightarrow> 'a list list \<Rightarrow> 'a list" where
  "separated sep [] = []"
| "separated sep [x] = x"
| "separated sep (x # y # ys) = x @ sep # separated sep (y # ys)"

definition slice_tokens :: "string list \<Rightarrow> Token list" where
  "slice_tokens vs = LBrack # separated Comma (map (\<lambda>v. [Str v]) vs) @ [RBrack]"

definition map_tokens :: "(string \<times> string list) list \<Rightarrow> Token list" where
  "map_tokens kvs =
     LBrace # separated Comma (map (\<lambda>(k, v). Str k # Colon # slice_tokens v) kvs) @ [RBrace]"

definition payload_tokens :: "RequestPayload \<Rightarrow> Token list" where
  "payload_tokens p =
     Str ''method'' # Colon # Str (Method p) # Comma #
     Str ''uri'' # Colon # Str (URI p) # Comma #
     Str ''headers'' # Colon #
     map_tokens (map (\<lambda>k. (k, case Headers p k of Some v \<Rightarrow> v | None \<Rightarrow> []))
                   (sorted_list_of_set (dom (Headers p)))) @
     [Comma, Str ''body'', Colon, Str (Body p), RBrace]"

text \<open>Serialize, then deserialize.\<close>

definition round_trip :: "RequestPayload \<Rightarrow> error + RequestPayload" where
  "round_trip p = (case json_Marshal p of Inl err \<Rightarrow> Inl err | Inr data \<Rightarrow> json_Unmarshal data)"

section \<open>Capture\<close>

lemma ReadAll_None_contents: "snd (ReadAll r) = None \<Longrightarrow> fst (ReadAll r) = contents r"
  by (induction r) (auto split: prod.splits)

lemma parseRequest_eq:
  "parseRequest r =
     (case snd (ReadAll (req_Body r)) of
        Some err \<Rightarrow> Inl err
      | None \<Rightarrow>
          Inr \<lparr>Method = req_Method r, URI = RequestURI r, Headers = Header r,
               Body = contents (req_Body r)\<rparr>)"
proof (cases "ReadAll (req_Body r)")
  case (Pair body e)
  show ?thesis
  proof (cases e)
    case None
    with Pair have "contents (req_Body r) = body"
      using ReadAll_None_contents [of "req_Body r"] by simp
    with Pair None show ?thesis by (simp add: parseRequest_def)
  next
    case (Some err)
    with Pair show ?thesis by (simp add: parseRequest_def)
  qed
qed

section \<open>The trace of one request\<close>

lemma enqueues_append: "enqueues (w @ v) = enqueues w @ enqueues v"
  by (simp add: enqueues_def)

lemma responses_append: "responses (w @ v) = responses w @ responses v"
  by (simp add: responses_def)

lemma handleRequest_redis_trace:
  "handleRequest_redis marshal R s r w = w @
     (case parseRequest r of
        Inl err \<Rightarrow>
          [JSON 500 [(''error'', ''Failed to read request body'')],
           Log LevelError ''Failed to read request body'' [(''error'', err)]]
      | Inr p \<Rightarrow>
          (case marshal p of
             Inl err \<Rightarrow>
               [JSON 500 [(''error'', ''Failed to push to Redis queue'')],
                Log LevelError ''Failed to push to Redis queue'' [(''error'', err)]]
           | Inr jsonData \<Rightarrow>
               LPushCall (RedisClient s) ''request_queue'' jsonData #
               (case LPush R (RedisClient s) ''request_queue'' jsonData of
                  Some err \<Rightarrow>
                    [JSON 500 [(''error'', ''Failed to push to Redis queue'')],
                     Log LevelError ''Failed to push to Redis queue'' [(''error'', err)]]
                | None \<Rightarrow>
                    [Log LevelInfo ''Request added to Redis queue''
                       [(''method'', Method p), (''uri'', URI p)],
                     JSON 200 [(''message'', ''Request added to Redis queue'')]])))"
  by (simp add: handleRequest_redis_def pushToRedis_def c_JSON_def slog_Error_def
      slog_Info_def StatusOK_def StatusInternalServerError_def
      split: sum.split option.split)

lemma handleRequest_kafka_trace:
  "handleRequest_kafka marshal K s r w = w @
     (case parseRequest r of
        Inl err \<Rightarrow>
          [JSON 500 [(''error'', ''Failed to read request body'')],
           Log LevelError ''Failed to read request body'' [(''error'', err)]]
      | Inr p \<Rightarrow>
          (case marshal p of
             Inl err \<Rightarrow>
               [JSON 500 [(''error'', ''Failed to push to Redis queue'')],
                Log LevelError ''Failed to push to Redis queue'' [(''error'', err)]]
           | Inr jsonData \<Rightarrow>
               ProduceSyncCall (KafkaClient s) \<lparr>Topic = ''foo'', Value = jsonData\<rparr> #
               (case ProduceSync K (KafkaClient s) \<lparr>Topic = ''foo'', Value = jsonData\<rparr> of
                  Some err \<Rightarrow>
                    [JSON 500 [(''error'', ''Failed to push to Redis queue'')],
                     Log LevelError ''Failed to push to Redis queue'' [(''error'', err)]]
                | None \<Rightarrow>
                    [Log LevelInfo ''Request added to Redis queue''
                       [(''method'', Method p), (''uri'', URI p)],
                     JSON 200 [(''message'', ''Request added to Redis queue'')]])))"
  by (simp add: handleRequest_kafka_def produce_def c_JSON_def slog_Error_def
      slog_Info_def StatusOK_def StatusInternalServerError_def Let_def
      split: sum.split option.split)

text \<open>
  C2. One handled request calls the backend's enqueue primitive at most once: not at
  all when capture or serialization fails, and exactly once otherwise, whatever the
  backend answers (a failed attempt is not repeated).
\<close>

theorem at_most_one_enqueue:
  "enqueues (handleRequest_redis marshal R s r w) = enqueues w @
     (case parseRequest r of
        Inl err \<Rightarrow> []
      | Inr p \<Rightarrow>
          (case marshal p of
             Inl err \<Rightarrow> []
           | Inr jsonData \<Rightarrow> [LPushCall (RedisClient s) ''request_queue'' jsonData]))
   \<and> enqueues (handleRequest_kafka marshal K s' r w) = enqueues w @
     (case parseRequest r of
        Inl err \<Rightarrow> []
      | Inr p \<Rightarrow>
          (case marshal p of
             Inl err \<Rightarrow> []
           | Inr jsonData \<Rightarrow>
               [ProduceSyncCall (KafkaClient s') \<lparr>Topic = ''foo'', Value = jsonData\<rparr>]))
   \<and> length (enqueues (handleRequest_redis marshal R s r w)) \<le> length (enqueues w) + 1
   \<and> length (enqueues (handleRequest_kafka marshal K s' r w)) \<le> length (enqueues w) + 1"
  by (simp add: handleRequest_redis_trace handleRequest_kafka_trace enqueues_def
      split: sum.split option.split)

lemma outcome_redis_response:
  "responses (handleRequest_redis marshal R s r w) = responses w @
     [case outcome_redis marshal R s r of
        CaptureFailed err \<Rightarrow> JSON 500 [(''error'', ''Failed to read request body'')]
      | SerializeFailed err \<Rightarrow> JSON 500 [(''error'', ''Failed to push to Redis queue'')]
      | EnqueueFailed err \<Rightarrow> JSON 500 [(''error'', ''Failed to push to Redis queue'')]
      | Enqueued \<Rightarrow> JSON 200 [(''message'', ''Request added to Redis queue'')]]"
  by (simp add: handleRequest_redis_trace outcome_redis_def responses_def
      split: sum.split option.split)

lemma outcome_kafka_response:
  "responses (handleRequest_kafka marshal K s r w) = responses w @
     [case outcome_kafka marshal K s r of
        CaptureFailed err \<Rightarrow> JSON 500 [(''error'', ''Failed to read request body'')]
      | SerializeFailed err \<Rightarrow> JSON 500 [(''error'', ''Failed to push to Redis queue'')]
      | EnqueueFailed err \<Rightarrow> JSON 500 [(''error'', ''Failed to push to Redis queue'')]
      | Enqueued \<Rightarrow> JSON 200 [(''message'', ''Request added to Redis queue'')]]"
  by (simp add: handleRequest_kafka_trace outcome_kafka_def responses_def
      split: sum.split option.split)

section \<open>The printer's handler\<close>

lemma handler_printer_response:
  "responses (handler_printer keys r w) =
     responses w @ [JSON 200 [(''message'', ''Request received and printed to console'')]]"
  by (simp add: handler_printer_def Let_def c_JSON_def StatusOK_def responses_def
      split: prod.split option.split)

lemma handler_printer_body_unread:
  "req_Method r \<noteq> ''POST'' \<Longrightarrow> req_Method r \<noteq> ''PUT'' \<Longrightarrow>
     handler_printer keys (r\<lparr>req_Body := b\<rparr>) w = handler_printer keys r w"
  by (simp add: handler_printer_def Let_def)

lemma handler_printer_body_printed:
  assumes "req_Method r = ''POST'' \<or> req_Method r = ''PUT''" and "snd (ReadAll (req_Body r)) = None"
  shows "Printf (''Body: '' @ contents (req_Body r) @ [CHR 0x0A]) \<in> set (handler_printer keys r w)"
proof -
  from assms(2) have "ReadAll (req_Body r) = (contents (req_Body r), None)"
    using ReadAll_None_contents [of "req_Body r"] by (cases "ReadAll (req_Body r)") simp
  with assms(1) show ?thesis
    by (simp add: handler_printer_def Let_def c_JSON_def)
qed

text \<open>
  C3, as amended. In the two forwarding handlers the status code follows the outcome,
  for every method, path and body: a capture failure, a serialize failure and an
  enqueue failure each answer 500, and a request that passed all three stages answers
  200 with the fixed confirmation body. The printer's handler answers every request
  with 200 and its own confirmation body, whatever happens to the body.
\<close>

theorem status_code_mapping:
  "map status (responses (handleRequest_redis marshal R s r [])) =
     [case outcome_redis marshal R s r of
        CaptureFailed err \<Rightarrow> 500
      | SerializeFailed err \<Rightarrow> 500
      | EnqueueFailed err \<Rightarrow> 500
      | Enqueued \<Rightarrow> 200]
   \<and> map status (responses (handleRequest_kafka marshal K s' r [])) =
     [case outcome_kafka marshal K s' r of
        CaptureFailed err \<Rightarrow> 500
      | SerializeFailed err \<Rightarrow> 500
      | EnqueueFailed err \<Rightarrow> 500
      | Enqueued \<Rightarrow> 200]
   \<and> (outcome_redis marshal R s r = Enqueued) =
       (responses (handleRequest_redis marshal R s r []) =
          [JSON 200 [(''message'', ''Request added to Redis queue'')]])
   \<and> (outcome_kafka marshal K s' r = Enqueued) =
       (responses (handleRequest_kafka marshal K s' r []) =
          [JSON 200 [(''message'', ''Request added to Redis queue'')]])
   \<and> responses (handler_printer keys r []) =
       [JSON 200 [(''message'', ''Request received and printed to console'')]]"
proof -
  have nil: "responses [] = []"
    by (simp add: responses_def)
  have a: "map status (responses (handleRequest_redis marshal R s r [])) =
     [case outcome_redis marshal R s r of
        CaptureFailed err \<Rightarrow> 500 | SerializeFailed err \<Rightarrow> 500
      | EnqueueFailed err \<Rightarrow> 500 | Enqueued \<Rightarrow> 200]"
    by (simp add: outcome_redis_response nil split: Outcome.split)
  have b: "map status (responses (handleRequest_kafka marshal K s' r [])) =
     [case outcome_kafka marshal K s' r of
        CaptureFailed err \<Rightarrow> 500 | SerializeFailed err \<Rightarrow> 500
      | EnqueueFailed err \<Rightarrow> 500 | Enqueued \<Rightarrow> 200]"
    by (simp add: outcome_kafka_response nil split: Outcome.split)
  have c: "(outcome_redis marshal R s r = Enqueued) =
       (responses (handleRequest_redis marshal R s r []) =
          [JSON 200 [(''message'', ''Request added to Redis queue'')]])"
    by (cases "outcome_redis marshal R s r") (simp_all add: outcome_redis_response nil)
  have d: "(outcome_kafka marshal K s' r = Enqueued) =
       (responses (handleRequest_kafka marshal K s' r []) =
          [JSON 200 [(''message'', ''Request added to Redis queue'')]])"
    by (cases "outcome_kafka marshal K s' r") (simp_all add: outcome_kafka_response nil)
  have e: "responses (handler_printer keys r []) =
       [JSON 200 [(''message'', ''Request received and printed to console'')]]"
    by (simp add: handler_printer_response nil)
  from a b c d e show ?thesis by blast
qed

text \<open>
  The claim as the specification words it has a capture failure answered with 500 by
  every handler. The printer's handler, given a \<open>POST\<close> whose body breaks while it is
  read (capture fails on this request), answers 200.
\<close>

theorem status_code_mapping_counterexample:
  "parseRequest \<lparr>req_Method = ''POST'', RequestURI = ''/a'', Header = Map.empty,
                 req_Body = Data ''ab'' (Broken ''unexpected EOF'')\<rparr> = Inl ''unexpected EOF''
   \<and> handler_printer []
        \<lparr>req_Method = ''POST'', RequestURI = ''/a'', Header = Map.empty,
         req_Body = Data ''ab'' (Broken ''unexpected EOF'')\<rparr> [] =
       [Printf (''Method: POST'' @ [CHR 0x0A]), Printf (''URI: /a'' @ [CHR 0x0A]),
        Printf (''Headers:'' @ [CHR 0x0A]),
        JSON 200 [(''message'', ''Request received and printed to console'')]]"
  by (simp add: parseRequest_def handler_printer_def c_JSON_def StatusOK_def)

text \<open>
  C10. Every run of the handler writes exactly one response: a 500 when capture or
  the push failed, a 200 otherwise. The response is the handler's last act but for
  logging: after it nothing is enqueued and nothing else is written.
\<close>

theorem exactly_one_response:
  "length (responses (handleRequest_redis marshal R s r w)) = length (responses w) + 1
   \<and> length (responses (handleRequest_kafka marshal K s' r w)) = length (responses w) + 1
   \<and> map status (responses (handleRequest_redis marshal R s r [])) =
       [if outcome_redis marshal R s r = Enqueued then 200 else 500]
   \<and> map status (responses (handleRequest_kafka marshal K s' r [])) =
       [if outcome_kafka marshal K s' r = Enqueued then 200 else 500]
   \<and> filter (\<lambda>e. \<not> is_log e)
        (tl (dropWhile (\<lambda>e. \<not> is_response e) (handleRequest_redis marshal R s r []))) = []
   \<and> filter (\<lambda>e. \<not> is_log e)
        (tl (dropWhile (\<lambda>e. \<not> is_response e) (handleRequest_kafka marshal K s' r []))) = []"
proof -
  have nil: "responses [] = []"
    by (simp add: responses_def)
  have a: "length (responses (handleRequest_redis marshal R s r w)) = length (responses w) + 1"
    by (simp add: outcome_redis_response)
  have b: "length (responses (handleRequest_kafka marshal K s' r w)) = length (responses w) + 1"
    by (simp add: outcome_kafka_response)
  have c: "map status (responses (handleRequest_redis marshal R s r [])) =
       [if outcome_redis marshal R s r = Enqueued then 200 else 500]"
    by (cases "outcome_redis marshal R s r") (simp_all add: outcome_redis_response nil)
  have d: "map status (responses (handleRequest_kafka marshal K s' r [])) =
       [if outcome_kafka marshal K s' r = Enqueued then 200 else 500]"
    by (cases "outcome_kafka marshal K s' r") (simp_all add: outcome_kafka_response nil)
  have e: "filter (\<lambda>e. \<not> is_log e)
        (tl (dropWhile (\<lambda>e. \<not> is_response e) (handleRequest_redis marshal R s r []))) = []"
    by (simp add: handleRequest_redis_trace split: sum.split option.split)
  have f: "filter (\<lambda>e. \<not> is_log e)
        (tl (dropWhile (\<lambda>e. \<not> is_response e) (handleRequest_kafka marshal K s' r []))) = []"
    by (simp add: handleRequest_kafka_trace split: sum.split option.split)
  from a b c d e f show ?thesis by blast
qed

section \<open>What a caller can learn from a failure\<close>

lemma same_but_text_reader_ReadAll:
  "same_but_text_reader b b' \<Longrightarrow>
     fst (ReadAll b) = fst (ReadAll b') \<and> same_but_text_opt (snd (ReadAll b)) (snd (ReadAll b'))"
  by (induction b b' rule: same_but_text_reader.induct) (auto split: prod.splits)

lemma same_but_text_parseRequest:
  assumes "same_but_text_request r r'"
  shows "same_but_text_sum (parseRequest r) (parseRequest r')"
proof -
  from assms have b: "same_but_text_reader (req_Body r) (req_Body r')"
    and f: "req_Method r = req_Method r'" "RequestURI r = RequestURI r'" "Header r = Header r'"
    by (simp_all add: same_but_text_request_def)
  obtain x e where x: "ReadAll (req_Body r) = (x, e)"
    by (cases "ReadAll (req_Body r)")
  obtain y e' where y: "ReadAll (req_Body r') = (y, e')"
    by (cases "ReadAll (req_Body r')")
  from same_but_text_reader_ReadAll [OF b] x y
  have "x = y" and "same_but_text_opt e e'"
    by simp_all
  with x y f show ?thesis
    by (cases e; cases e') (simp_all add: parseRequest_def)
qed

lemma same_but_text_outcome_redis:
  assumes "same_but_text_request r r'"
    and "\<forall>p. same_but_text_sum (marshal p) (marshal' p)"
    and "\<forall>c k v. same_but_text_opt (LPush R c k v) (LPush R' c k v)"
  shows "responses (handleRequest_redis marshal R s r w) =
         responses (handleRequest_redis marshal' R' s r' w)"
proof (cases "parseRequest r")
  case (Inl e)
  with same_but_text_parseRequest [OF assms(1)] obtain e' where "parseRequest r' = Inl e'"
    by (cases "parseRequest r'") simp_all
  with Inl show ?thesis
    by (simp add: outcome_redis_response outcome_redis_def)
next
  case (Inr p)
  with same_but_text_parseRequest [OF assms(1)] have p': "parseRequest r' = Inr p"
    by (cases "parseRequest r'") simp_all
  show ?thesis
  proof (cases "marshal p")
    case (Inl e)
    with assms(2) [rule_format, of p] obtain e' where "marshal' p = Inl e'"
      by (cases "marshal' p") simp_all
    with Inl Inr p' show ?thesis
      by (simp add: outcome_redis_response outcome_redis_def)
  next
    case m: (Inr d)
    with assms(2) [rule_format, of p] have m': "marshal' p = Inr d"
      by (cases "marshal' p") simp_all
    from assms(3) [rule_format, of "RedisClient s" "''request_queue''" d]
    show ?thesis
      using Inr p' m m'
      by (cases "LPush R (RedisClient s) ''request_queue'' d";
          cases "LPush R' (RedisClient s) ''request_queue'' d")
         (simp_all add: outcome_redis_response outcome_redis_def)
  qed
qed

lemma same_but_text_outcome_kafka:
  assumes "same_but_text_request r r'"
    and "\<forall>p. same_but_text_sum (marshal p) (marshal' p)"
    and "\<forall>c k. same_but_text_opt (ProduceSync K c k) (ProduceSync K' c k)"
  shows "responses (handleRequest_kafka marshal K s r w) =
         responses (handleRequest_kafka marshal' K' s r' w)"
proof (cases "parseRequest r")
  case (Inl e)
  with same_but_text_parseRequest [OF assms(1)] obtain e' where "parseRequest r' = Inl e'"
    by (cases "parseRequest r'") simp_all
  with Inl show ?thesis
    by (simp add: outcome_kafka_response outcome_kafka_def)
next
  case (Inr p)
  with same_but_text_parseRequest [OF assms(1)] have p': "parseRequest r' = Inr p"
    by (cases "parseRequest r'") simp_all
  show ?thesis
  proof (cases "marshal p")
    case (Inl e)
    with assms(2) [rule_format, of p] obtain e' where "marshal' p = Inl e'"
      by (cases "marshal' p") simp_all
    with Inl Inr p' show ?thesis
      by (simp add: outcome_kafka_response outcome_kafka_def)
  next
    case m: (Inr d)
    with assms(2) [rule_format, of p] have m': "marshal' p = Inr d"
      by (cases "marshal' p") simp_all
    from assms(3) [rule_format, of "KafkaClient s" "\<lparr>Topic = ''foo'', Value = d\<rparr>"]
    show ?thesis
      using Inr p' m m'
      by (cases "ProduceSync K (KafkaClient s) \<lparr>Topic = ''foo'', Value = d\<rparr>";
          cases "ProduceSync K' (KafkaClient s) \<lparr>Topic = ''foo'', Value = d\<rparr>")
         (simp_all add: outcome_kafka_response outcome_kafka_def)
  qed
qed

text \<open>
  C9. The response does not depend on the text of an error. Two runs of a handler
  that differ only in the text of the read error, of the serialization error or of
  the backend's error write the same responses; and the response is always one of
  three fixed values, none of which holds any text of an error.
\<close>

theorem response_independent_of_error_text:
  assumes "same_but_text_request r r'"
    and "\<forall>p. same_but_text_sum (marshal p) (marshal' p)"
    and "\<forall>c k v. same_but_text_opt (LPush R c k v) (LPush R' c k v)"
    and "\<forall>c k. same_but_text_opt (ProduceSync K c k) (ProduceSync K' c k)"
  shows "responses (handleRequest_redis marshal R s r w) =
           responses (handleRequest_redis marshal' R' s r' w)
       \<and> responses (handleRequest_kafka marshal K s' r w) =
           responses (handleRequest_kafka marshal' K' s' r' w)
       \<and> set (responses (handleRequest_redis marshal R s r [])) \<subseteq>
           {JSON 500 [(''error'', ''Failed to read request body'')],
            JSON 500 [(''error'', ''Failed to push to Redis queue'')],
            JSON 200 [(''message'', ''Request added to Redis queue'')]}
       \<and> set (responses (handleRequest_kafka marshal K s' r [])) \<subseteq>
           {JSON 500 [(''error'', ''Failed to read request body'')],
            JSON 500 [(''error'', ''Failed to push to Redis queue'')],
            JSON 200 [(''message'', ''Request added to Redis queue'')]}"
proof -
  have nil: "responses [] = []"
    by (simp add: responses_def)
  have a: "set (responses (handleRequest_redis marshal R s r [])) \<subseteq>
           {JSON 500 [(''error'', ''Failed to read request body'')],
            JSON 500 [(''error'', ''Failed to push to Redis queue'')],
            JSON 200 [(''message'', ''Request added to Redis queue'')]}"
    by (cases "outcome_redis marshal R s r") (simp_all add: outcome_redis_response nil)
  have b: "set (responses (handleRequest_kafka marshal K s' r [])) \<subseteq>
           {JSON 500 [(''error'', ''Failed to read request body'')],
            JSON 500 [(''error'', ''Failed to push to Redis queue'')],
            JSON 200 [(''message'', ''Request added to Redis queue'')]}"
    by (cases "outcome_kafka marshal K s' r") (simp_all add: outcome_kafka_response nil)
  from same_but_text_outcome_redis [OF assms(1-3)]
    same_but_text_outcome_kafka [OF assms(1,2,4)] a b
  show ?thesis by blast
qed

theorem response_independent_of_error_text_witness:
  "same_but_text_request
     \<lparr>req_Method = ''POST'', RequestURI = ''/a'', Header = Map.empty,
      req_Body = Data ''ab'' (Broken ''connection reset by peer'')\<rparr>
     \<lparr>req_Method = ''POST'', RequestURI = ''/a'', Header = Map.empty,
      req_Body = Data ''ab'' (Broken ''unexpected EOF'')\<rparr>
   \<and> responses (handleRequest_redis (\<lambda>p. Inr ''{}'')
        \<lparr>Ping = \<lambda>c. None, LPush = \<lambda>c k v. Some ''connection refused''\<rparr>
        \<lparr>RedisClient = \<lparr>Addr = ''localhost:6379'', DB = 0\<rparr>\<rparr>
        \<lparr>req_Method = ''POST'', RequestURI = ''/a'', Header = Map.empty,
         req_Body = Data ''ab'' (Broken ''connection reset by peer'')\<rparr> [])
     = responses (handleRequest_redis (\<lambda>p. Inr ''{}'')
        \<lparr>Ping = \<lambda>c. None, LPush = \<lambda>c k v. Some ''i/o timeout''\<rparr>
        \<lparr>RedisClient = \<lparr>Addr = ''localhost:6379'', DB = 0\<rparr>\<rparr>
        \<lparr>req_Method = ''POST'', RequestURI = ''/a'', Header = Map.empty,
         req_Body = Data ''ab'' (Broken ''unexpected EOF'')\<rparr> [])"
  using response_independent_of_error_text
    [of "\<lparr>req_Method = ''POST'', RequestURI = ''/a'', Header = Map.empty,
          req_Body = Data ''ab'' (Broken ''connection reset by peer'')\<rparr>"
        "\<lparr>req_Method = ''POST'', RequestURI = ''/a'', Header = Map.empty,
          req_Body = Data ''ab'' (Broken ''unexpected EOF'')\<rparr>"
        "\<lambda>p. Inr ''{}''" "\<lambda>p. Inr ''{}''"
        "\<lparr>Ping = \<lambda>c. None, LPush = \<lambda>c k v. Some ''connection refused''\<rparr>"
        "\<lparr>Ping = \<lambda>c. None, LPush = \<lambda>c k v. Some ''i/o timeout''\<rparr>"
        "\<lparr>NewClient = \<lambda>c. None, ProduceSync = \<lambda>c k. Some ''connection refused''\<rparr>"
        "\<lparr>NewClient = \<lambda>c. None, ProduceSync = \<lambda>c k. Some ''i/o timeout''\<rparr>"
        "\<lparr>RedisClient = \<lparr>Addr = ''localhost:6379'', DB = 0\<rparr>\<rparr>" "[]"]
  by (simp add: same_but_text_request_def)

section \<open>The backend fails at enqueue time\<close>

text \<open>
  C6, as amended. When the backend answers the enqueue call with an error, the handler
  has captured the whole body and the headers, has called the backend once with the
  serialized envelope, answers 500 with the body
  \<open>{"error": "Failed to push to Redis queue"}\<close> (in both producers), and logs the
  backend's error text at error level.
\<close>

theorem backend_failure_response:
  assumes "parseRequest r = Inr p"
    and "marshal p = Inr jsonData"
    and "LPush R (RedisClient s) ''request_queue'' jsonData = Some err"
    and "ProduceSync K (KafkaClient s') \<lparr>Topic = ''foo'', Value = jsonData\<rparr> = Some err'"
  shows "handleRequest_redis marshal R s r w = w @
           [LPushCall (RedisClient s) ''request_queue'' jsonData,
            JSON 500 [(''error'', ''Failed to push to Redis queue'')],
            Log LevelError ''Failed to push to Redis queue'' [(''error'', err)]]
       \<and> handleRequest_kafka marshal K s' r w = w @
           [ProduceSyncCall (KafkaClient s') \<lparr>Topic = ''foo'', Value = jsonData\<rparr>,
            JSON 500 [(''error'', ''Failed to push to Redis queue'')],
            Log LevelError ''Failed to push to Redis queue'' [(''error'', err')]]
       \<and> Body p = contents (req_Body r) \<and> Headers p = Header r
       \<and> Method p = req_Method r \<and> URI p = RequestURI r"
proof -
  from assms(1) have "Body p = contents (req_Body r) \<and> Headers p = Header r
       \<and> Method p = req_Method r \<and> URI p = RequestURI r"
    by (auto simp add: parseRequest_eq split: option.splits)
  with assms show ?thesis
    by (simp add: handleRequest_redis_trace handleRequest_kafka_trace)
qed

theorem backend_failure_response_witness:
  "handleRequest_redis (\<lambda>p. Inr (Body p))
     \<lparr>Ping = \<lambda>c. None, LPush = \<lambda>c k v. Some ''connection refused''\<rparr>
     \<lparr>RedisClient = \<lparr>Addr = ''localhost:6379'', DB = 0\<rparr>\<rparr>
     \<lparr>req_Method = ''POST'', RequestURI = ''/a'', Header = [''X-Tag'' \<mapsto> [''a'', ''b'']],
      req_Body = Data ''ab'' (Data ''c'' EOF)\<rparr> []
   = [LPushCall \<lparr>Addr = ''localhost:6379'', DB = 0\<rparr> ''request_queue'' ''abc'',
      JSON 500 [(''error'', ''Failed to push to Redis queue'')],
      Log LevelError ''Failed to push to Redis queue'' [(''error'', ''connection refused'')]]"
  using backend_failure_response
    [of "\<lparr>req_Method = ''POST'', RequestURI = ''/a'', Header = [''X-Tag'' \<mapsto> [''a'', ''b'']],
          req_Body = Data ''ab'' (Data ''c'' EOF)\<rparr>"
        "\<lparr>Method = ''POST'', URI = ''/a'', Headers = [''X-Tag'' \<mapsto> [''a'', ''b'']],
          Body = ''abc''\<rparr>"
        "\<lambda>p. Inr (Body p)" "''abc''"
        "\<lparr>Ping = \<lambda>c. None, LPush = \<lambda>c k v. Some ''connection refused''\<rparr>"
        "\<lparr>RedisClient = \<lparr>Addr = ''localhost:6379'', DB = 0\<rparr>\<rparr>"
        "''connection refused''"
        "\<lparr>NewClient = \<lambda>c. None, ProduceSync = \<lambda>c k. Some ''connection refused''\<rparr>"
        "\<lparr>KafkaClient = []\<rparr>" "''connection refused''" "[]"]
  by (simp add: parseRequest_def)

text \<open>
  The claim as the specification words it names the body
  \<open>{"error": "Failed to push to queue"}\<close>; the handler writes another text.
\<close>

theorem backend_failure_body_counterexample:
  "responses (handleRequest_redis (\<lambda>p. Inr (Body p))
     \<lparr>Ping = \<lambda>c. None, LPush = \<lambda>c k v. Some ''connection refused''\<rparr>
     \<lparr>RedisClient = \<lparr>Addr = ''localhost:6379'', DB = 0\<rparr>\<rparr>
     \<lparr>req_Method = ''POST'', RequestURI = ''/a'', Header = [''X-Tag'' \<mapsto> [''a'', ''b'']],
      req_Body = Data ''ab'' (Data ''c'' EOF)\<rparr> [])
   \<noteq> [JSON 500 [(''error'', ''Failed to push to queue'')]]"
  by (simp add: handleRequest_redis_trace parseRequest_def responses_def)

section \<open>Capture of body and headers\<close>

lemma serve_redis_snoc:
  "serve_redis marshal R (Listen w s routes) (rs @ [r]) =
     handleRequest_redis marshal R s r (serve_redis marshal R (Listen w s routes) rs)"
  by simp

lemma serve_kafka_snoc:
  "serve_kafka marshal K (Listen w s routes) (rs @ [r]) =
     handleRequest_kafka marshal K s r (serve_kafka marshal K (Listen w s routes) rs)"
  by simp

lemma routes_of_main_redis: "set (routes_of (main_redis R run args)) \<subseteq> {Any ''/*proxyPath''}"
  by (simp add: main_redis_def Let_def split: sum.split option.split)

lemma routes_of_main_kafka: "set (routes_of (main_kafka K run args)) \<subseteq> {Any ''/*proxyPath''}"
  by (simp add: main_kafka_def Let_def split: sum.split option.split)

text \<open>
  C4, as amended. In the two producers, for every request, whatever its method \<open>m\<close>
  and its request target \<open>u\<close>, capture drains the whole body stream: it fails when the
  stream breaks, and otherwise the envelope's body is all the bytes of the stream;
  nothing in it looks at the method. The printer's handler reads the body only when
  the method is \<open>POST\<close> or \<open>PUT\<close> (then it prints all of it); for any other method
  the body makes no difference to what the handler does. Each program registers one
  route, \<open>Any "/*proxyPath"\<close>, and a listening process hands every request that
  arrives to that route's handler.
\<close>

theorem capture_reads_entire_body:
  "parseRequest \<lparr>req_Method = m, RequestURI = u, Header = h, req_Body = b\<rparr> =
     (case snd (ReadAll b) of
        Some err \<Rightarrow> Inl err
      | None \<Rightarrow> Inr \<lparr>Method = m, URI = u, Headers = h, Body = contents b\<rparr>)
   \<and> ((m = ''POST'' \<or> m = ''PUT'') \<and> snd (ReadAll b) = None \<longrightarrow>
        Printf (''Body: '' @ contents b @ [CHR 0x0A]) \<in>
          set (handler_printer keys \<lparr>req_Method = m, RequestURI = u, Header = h, req_Body = b\<rparr> w))
   \<and> (m \<noteq> ''POST'' \<and> m \<noteq> ''PUT'' \<longrightarrow>
        handler_printer keys \<lparr>req_Method = m, RequestURI = u, Header = h, req_Body = b\<rparr> w =
        handler_printer keys \<lparr>req_Method = m, RequestURI = u, Header = h, req_Body = b'\<rparr> w)
   \<and> set (routes_of (main_redis R run args)) \<subseteq> {Any ''/*proxyPath''}
   \<and> set (routes_of (main_kafka K run args)) \<subseteq> {Any ''/*proxyPath''}
   \<and> serve_redis marshal R' (Listen w s routes) (rs @ [r]) =
       handleRequest_redis marshal R' s r (serve_redis marshal R' (Listen w s routes) rs)
   \<and> serve_kafka marshal K' (Listen w s' routes) (rs @ [r]) =
       handleRequest_kafka marshal K' s' r (serve_kafka marshal K' (Listen w s' routes) rs)"
proof -
  let ?r = "\<lparr>req_Method = m, RequestURI = u, Header = h, req_Body = b\<rparr>"
  have p: "parseRequest ?r =
     (case snd (ReadAll b) of
        Some err \<Rightarrow> Inl err
      | None \<Rightarrow> Inr \<lparr>Method = m, URI = u, Headers = h, Body = contents b\<rparr>)"
    by (simp add: parseRequest_eq split: option.split)
  have q: "(m = ''POST'' \<or> m = ''PUT'') \<and> snd (ReadAll b) = None \<longrightarrow>
        Printf (''Body: '' @ contents b @ [CHR 0x0A]) \<in> set (handler_printer keys ?r w)"
    using handler_printer_body_printed [of ?r keys w] by simp
  have n: "m \<noteq> ''POST'' \<and> m \<noteq> ''PUT'' \<longrightarrow>
        handler_printer keys ?r w =
        handler_printer keys \<lparr>req_Method = m, RequestURI = u, Header = h, req_Body = b'\<rparr> w"
    using handler_printer_body_unread [of ?r keys b' w] by simp
  from p q n routes_of_main_redis [of R run args] routes_of_main_kafka [of K run args]
    serve_redis_snoc [of marshal R' w s routes rs r]
    serve_kafka_snoc [of marshal K' w s' routes rs r]
  show ?thesis by blast
qed

theorem capture_reads_entire_body_witness:
  "Printf (''Body: abc'' @ [CHR 0x0A]) \<in>
     set (handler_printer []
            \<lparr>req_Method = ''PUT'', RequestURI = ''/a'', Header = Map.empty,
             req_Body = Data ''ab'' (Data ''c'' EOF)\<rparr> [])
   \<and> handler_printer []
        \<lparr>req_Method = ''DELETE'', RequestURI = ''/a'', Header = Map.empty,
         req_Body = Data ''ab'' (Data ''c'' EOF)\<rparr> [] =
      handler_printer []
        \<lparr>req_Method = ''DELETE'', RequestURI = ''/a'', Header = Map.empty, req_Body = EOF\<rparr> []"
  using capture_reads_entire_body
      [where m = "''PUT''" and u = "''/a''" and h = Map.empty
         and b = "Data ''ab'' (Data ''c'' EOF)" and keys = "[]" and w = "[]"]
    capture_reads_entire_body
      [where m = "''DELETE''" and u = "''/a''" and h = Map.empty
         and b = "Data ''ab'' (Data ''c'' EOF)" and keys = "[]" and w = "[]" and b' = EOF]
  by simp

text \<open>
  The claim as the specification words it has the body captured for every verb. The
  printer's handler, given a \<open>GET\<close> with a body, never reads it: its trace holds the
  method, the target and the headers, and is the trace of the same request without a
  body.
\<close>

theorem capture_reads_entire_body_counterexample:
  "handler_printer []
     \<lparr>req_Method = ''GET'', RequestURI = ''/a'', Header = Map.empty,
      req_Body = Data ''ab'' (Data ''c'' EOF)\<rparr> [] =
   [Printf (''Method: GET'' @ [CHR 0x0A]), Printf (''URI: /a'' @ [CHR 0x0A]),
    Printf (''Headers:'' @ [CHR 0x0A]),
    JSON 200 [(''message'', ''Request received and printed to console'')]]
   \<and> handler_printer []
     \<lparr>req_Method = ''GET'', RequestURI = ''/a'', Header = Map.empty,
      req_Body = Data ''ab'' (Data ''c'' EOF)\<rparr> [] =
     handler_printer []
     \<lparr>req_Method = ''GET'', RequestURI = ''/a'', Header = Map.empty, req_Body = EOF\<rparr> []"
  by (simp add: handler_printer_def c_JSON_def StatusOK_def)

text \<open>
  C7. The envelope holds the request's header multimap as it is: for a name that the
  request carries with the values \<open>vs\<close>, in that order, the envelope's entry for the
  name is \<open>vs\<close>, all the values in their order.
\<close>

theorem header_values_preserved:
  assumes "Header r name = Some vs"
    and "snd (ReadAll (req_Body r)) = None"
  shows "\<exists>p. parseRequest r = Inr p \<and> Headers p = Header r \<and> Headers p name = Some vs"
  using assms by (simp add: parseRequest_eq)

theorem header_values_preserved_witness:
  "\<exists>p. parseRequest
          \<lparr>req_Method = ''GET'', RequestURI = ''/foo/bar?x=1'',
           Header = [''X-Tag'' \<mapsto> [''a'', ''b'']], req_Body = EOF\<rparr> = Inr p
       \<and> Headers p ''X-Tag'' = Some [''a'', ''b'']"
  using header_values_preserved
    [of "\<lparr>req_Method = ''GET'', RequestURI = ''/foo/bar?x=1'',
          Header = [''X-Tag'' \<mapsto> [''a'', ''b'']], req_Body = EOF\<rparr>"
        "''X-Tag''" "[''a'', ''b'']"]
  by simp blast

section \<open>Process start and the backend address\<close>

lemma NewServer_redis_unreachable:
  "Ping R \<lparr>Addr = a, DB = 0\<rparr> = Some err \<Longrightarrow>
     NewServer_redis R a = Inl (''failed to connect to Redis at '' @ a @ '': '' @ err)"
  by (simp add: NewServer_redis_def)

text \<open>
  The Redis producer fails fast: when the ping at start fails, the process logs the
  failure and ends, and no request is ever answered.
\<close>

lemma main_redis_fail_fast:
  assumes "flag_Parse [''redis''] args"
    and "Ping R \<lparr>Addr = flag_String ''redis'' ''localhost:6379'' args, DB = 0\<rparr> = Some err"
  shows "serve_redis marshal R' (main_redis R run args) rs =
           [Log LevelError ''Failed to initialize server''
              [(''error'', ''failed to connect to Redis at '' @
                  flag_String ''redis'' ''localhost:6379'' args @ '': '' @ err)]]"
  using assms by (simp add: main_redis_def NewServer_redis_unreachable slog_Error_def)

text \<open>The Redis producer connects to the address of the flag, database 0.\<close>

lemma main_redis_address:
  assumes "main_redis R run args = Listen w s routes"
  shows "RedisClient s = \<lparr>Addr = flag_String ''redis'' ''localhost:6379'' args, DB = 0\<rparr>"
  using assms
  by (auto simp add: main_redis_def NewServer_redis_def Let_def
      split: if_splits option.splits)

text \<open>
  The Kafka producer's \<open>NewServer\<close> asks the backend nothing and does not read its
  parameter: the result is the same for every list of seeds.
\<close>

lemma NewServer_kafka_seeds: "NewServer_kafka K seeds = NewServer_kafka K seeds'"
  by (simp add: NewServer_kafka_def)

lemma main_kafka_ProduceSync:
  "main_kafka (K\<lparr>ProduceSync := f\<rparr>) run args =
     (case main_kafka K run args of
        Exit w \<Rightarrow> Exit w
      | Listen w s routes \<Rightarrow> Listen w s routes)"
  by (simp add: main_kafka_def NewServer_kafka_def Let_def split: option.split)

text \<open>
  C5, at the failing input. The Kafka producer is started while no broker can be
  reached (every produce call fails; the options are valid, so \<open>kgo.NewClient\<close>
  returns a client). The process does not end: it logs that it is connected, listens,
  and answers the first request with 500.
\<close>

theorem kafka_starts_without_backend:
  "main_kafka
     \<lparr>NewClient = \<lambda>opts. None, ProduceSync = \<lambda>opts k. Some ''unable to dial: connection refused''\<rparr>
     None []
   = Listen [Log LevelInfo ''Connected to kafka'' [(''address'', ''localhost:9092'')]]
       \<lparr>KafkaClient = [ConsumerGroup ''my-group-identifier'', ConsumeTopics [''foo'']]\<rparr>
       [Any ''/*proxyPath'']
   \<and> responses (serve_kafka (\<lambda>p. Inr (Body p))
        \<lparr>NewClient = \<lambda>opts. None, ProduceSync = \<lambda>opts k. Some ''unable to dial: connection refused''\<rparr>
        (main_kafka
           \<lparr>NewClient = \<lambda>opts. None, ProduceSync = \<lambda>opts k. Some ''unable to dial: connection refused''\<rparr>
           None [])
        [\<lparr>req_Method = ''GET'', RequestURI = ''/'', Header = Map.empty, req_Body = EOF\<rparr>])
     = [JSON 500 [(''error'', ''Failed to push to Redis queue'')]]"
  by (simp add: main_kafka_def NewServer_kafka_def flag_Parse_def flag_String_def
      slog_Info_def handleRequest_kafka_trace parseRequest_def responses_def)

text \<open>
  C8, at the failing input. The Kafka producer is started with the address flag set
  to two brokers. The client it makes holds the consumer group and the topic and no
  address: it is the client made for any other address.
\<close>

theorem kafka_address_not_used:
  "main_kafka \<lparr>NewClient = \<lambda>opts. None, ProduceSync = f\<rparr> None
     [(''kafka address'', ''broker-1:9092,broker-2:9092'')]
   = Listen [Log LevelInfo ''Connected to kafka'' [(''address'', ''broker-1:9092,broker-2:9092'')]]
       \<lparr>KafkaClient = [ConsumerGroup ''my-group-identifier'', ConsumeTopics [''foo'']]\<rparr>
       [Any ''/*proxyPath'']
   \<and> NewServer_kafka K (Split ''broker-1:9092,broker-2:9092'' CHR '','') =
       NewServer_kafka K (Split ''localhost:9092'' CHR '','')"
  by (simp add: main_kafka_def NewServer_kafka_def flag_Parse_def flag_String_def
      slog_Info_def)

section \<open>Runes and their bytes\<close>

lemma mod_add_base:
  fixes x m k :: nat
  assumes "x < m"
  shows "(k * m + x) mod m = x"
  using assms by simp

lemma radix64_three:
  fixes x y z :: nat
  assumes "y < 64" "z < 64"
  shows "(x * 4096 + y * 64 + z) div 4096 = x"
    and "(x * 4096 + y * 64 + z) div 64 mod 64 = y"
    and "(x * 4096 + y * 64 + z) mod 64 = z"
proof -
  have e: "x * 4096 + y * 64 + z = (x * 64 + y) * 64 + z" by simp
  from assms have "y * 64 + z < 4096" by simp
  then have "(x * 4096 + (y * 64 + z)) div 4096 = x"
    by (simp only: div_mult_self3 div_less)
  then show "(x * 4096 + y * 64 + z) div 4096 = x"
    by (simp only: add.assoc)
  have "((x * 64 + y) * 64 + z) div 64 = x * 64 + y"
    using assms by (simp only: div_mult_self3 div_less)
  then show "(x * 4096 + y * 64 + z) div 64 mod 64 = y"
    using assms by (subst e) (simp only: mod_mult_self3 mod_less)
  show "(x * 4096 + y * 64 + z) mod 64 = z"
    using assms by (subst e) (simp only: mod_mult_self3 mod_less)
qed

lemma radix64_two:
  fixes x y :: nat
  assumes "y < 64"
  shows "(x * 64 + y) div 64 = x" and "(x * 64 + y) mod 64 = y"
  using assms by (simp_all only: div_mult_self3 mod_mult_self3 div_less mod_less)

lemma radix64_four:
  fixes x y z w :: nat
  assumes "y < 64" "z < 64" "w < 64"
  shows "(x * 262144 + y * 4096 + z * 64 + w) div 262144 = x"
    and "(x * 262144 + y * 4096 + z * 64 + w) div 4096 mod 64 = y"
    and "(x * 262144 + y * 4096 + z * 64 + w) div 64 mod 64 = z"
    and "(x * 262144 + y * 4096 + z * 64 + w) mod 64 = w"
proof -
  have e1: "x * 262144 + y * 4096 + z * 64 + w = (x * 4096 + y * 64 + z) * 64 + w" by simp
  have e2: "x * 262144 + y * 4096 + z * 64 + w = (x * 64 + y) * 4096 + (z * 64 + w)" by simp
  have e3: "x * 262144 + y * 4096 + z * 64 + w = x * 262144 + (y * 4096 + z * 64 + w)" by simp
  from assms have b1: "z * 64 + w < 4096" by simp
  from assms have b2: "y * 4096 + z * 64 + w < 262144" by simp
  show "(x * 262144 + y * 4096 + z * 64 + w) div 262144 = x"
    using b2 by (subst e3) (simp only: div_mult_self3 div_less)
  have "((x * 64 + y) * 4096 + (z * 64 + w)) div 4096 = x * 64 + y"
    using b1 by (simp only: div_mult_self3 div_less)
  then show "(x * 262144 + y * 4096 + z * 64 + w) div 4096 mod 64 = y"
    using assms by (subst e2) (simp only: mod_mult_self3 mod_less)
  have "((x * 4096 + y * 64 + z) * 64 + w) div 64 = x * 4096 + y * 64 + z"
    using assms by (simp only: div_mult_self3 div_less)
  then show "(x * 262144 + y * 4096 + z * 64 + w) div 64 mod 64 = z"
    using assms radix64_three(3) [of y z x] by (subst e1) (simp only:)
  show "(x * 262144 + y * 4096 + z * 64 + w) mod 64 = w"
    using assms by (subst e1) (simp only: mod_mult_self3 mod_less)
qed


lemma rune_bytes_two:
  fixes a b :: nat
  assumes rg: "0xC2 \<le> a" "a < 0xE0" "0x80 \<le> b" "b \<le> 0xBF"
    and r_def: "r = (a mod 32) * 64 + b mod 64"
  shows "0x80 \<le> r" "r \<le> 0x7FF" "0xC0 + r div 64 = a" "0x80 + r mod 64 = b"
proof -
  from rg(1) obtain x where x: "a = 192 + x" using le_Suc_ex [of 192 a] by auto
  from rg(3) obtain y where y: "b = 128 + y" using le_Suc_ex by blast
  from rg x y have bd: "x < 32" "y < 64" "2 \<le> x" by simp_all
  have "a mod 32 = x" "b mod 64 = y"
    using mod_add_base [OF bd(1), of 6] mod_add_base [OF bd(2), of 2]
    by (simp_all add: x y)
  then have r: "r = x * 64 + y"
    by (simp only: r_def)
  from bd show "0x80 \<le> r" "r \<le> 0x7FF"
    unfolding r by simp_all
  from radix64_two [OF bd(2), of x]
  show "0xC0 + r div 64 = a" "0x80 + r mod 64 = b"
    by (simp_all only: r x y)
qed

lemma rune_bytes_three:
  fixes a b c :: nat
  assumes rg: "0xE0 \<le> a" "a < 0xF0" "accept_lo a \<le> b" "b \<le> accept_hi a" "0x80 \<le> c" "c \<le> 0xBF"
    and r_def: "r = (a mod 16) * 4096 + (b mod 64) * 64 + c mod 64"
  shows "0x800 \<le> r" "r \<le> 0xFFFF" "\<not> (0xD800 \<le> r \<and> r \<le> 0xDFFF)"
    "0xE0 + r div 4096 = a" "0x80 + (r div 64) mod 64 = b" "0x80 + r mod 64 = c"
proof -
  from rg(3,4) have b: "0x80 \<le> b" "b \<le> 0xBF"
    by (simp_all add: accept_lo_def accept_hi_def split: if_splits)
  from rg(1) obtain x where x: "a = 224 + x" using le_Suc_ex by blast
  from b(1) obtain y where y: "b = 128 + y" using le_Suc_ex by blast
  from rg(5) obtain z where z: "c = 128 + z" using le_Suc_ex by blast
  from rg b x y z have bd: "x < 16" "y < 64" "z < 64" by simp_all
  have "a mod 16 = x" "b mod 64 = y" "c mod 64 = z"
    using mod_add_base [OF bd(1), of 14] mod_add_base [OF bd(2), of 2] mod_add_base [OF bd(3), of 2]
    by (simp_all add: x y z)
  then have r: "r = x * 4096 + y * 64 + z"
    by (simp only: r_def)
  from rg(3) x y have lo: "x = 0 \<longrightarrow> 32 \<le> y"
    by (simp add: accept_lo_def split: if_splits)
  from rg(4) x y have hi: "x = 13 \<longrightarrow> y \<le> 31"
    by (simp add: accept_hi_def split: if_splits)
  from lo bd show "0x800 \<le> r"
    unfolding r by (cases "x = 0") simp_all
  from bd show "r \<le> 0xFFFF"
    unfolding r by simp
  from hi bd show "\<not> (0xD800 \<le> r \<and> r \<le> 0xDFFF)"
    unfolding r by (cases "x = 13") auto
  from radix64_three [OF bd(2,3), of x]
  show "0xE0 + r div 4096 = a" "0x80 + (r div 64) mod 64 = b" "0x80 + r mod 64 = c"
    by (simp_all only: r x y z)
qed

lemma rune_bytes_four:
  fixes a b c d :: nat
  assumes rg: "0xF0 \<le> a" "a \<le> 0xF4" "accept_lo a \<le> b" "b \<le> accept_hi a"
    "0x80 \<le> c" "c \<le> 0xBF" "0x80 \<le> d" "d \<le> 0xBF"
    and r_def: "r = (a mod 8) * 262144 + (b mod 64) * 4096 + (c mod 64) * 64 + d mod 64"
  shows "0xFFFF < r" "r \<le> 0x10FFFF"
    "0xF0 + r div 262144 = a" "0x80 + (r div 4096) mod 64 = b"
    "0x80 + (r div 64) mod 64 = c" "0x80 + r mod 64 = d"
proof -
  from rg(3,4) have b: "0x80 \<le> b" "b \<le> 0xBF"
    by (simp_all add: accept_lo_def accept_hi_def split: if_splits)
  from rg(1) obtain x where x: "a = 240 + x" using le_Suc_ex by blast
  from b(1) obtain y where y: "b = 128 + y" using le_Suc_ex by blast
  from rg(5) obtain z where z: "c = 128 + z" using le_Suc_ex by blast
  from rg(7) obtain w where w: "d = 128 + w" using le_Suc_ex by blast
  from rg b x y z w have bd: "x < 8" "y < 64" "z < 64" "w < 64" "x \<le> 4" by simp_all
  have "a mod 8 = x" "b mod 64 = y" "c mod 64 = z" "d mod 64 = w"
    using mod_add_base [OF bd(1), of 30] mod_add_base [OF bd(2), of 2]
      mod_add_base [OF bd(3), of 2] mod_add_base [OF bd(4), of 2]
    by (simp_all add: x y z w)
  then have r: "r = x * 262144 + y * 4096 + z * 64 + w"
    by (simp only: r_def)
  from rg(3) x y have lo: "x = 0 \<longrightarrow> 16 \<le> y"
    by (simp add: accept_lo_def split: if_splits)
  from rg(4) x y have hi: "x = 4 \<longrightarrow> y \<le> 15"
    by (simp add: accept_hi_def split: if_splits)
  from lo bd show "0xFFFF < r"
    unfolding r by (cases "x = 0") simp_all
  from hi bd show "r \<le> 0x10FFFF"
    unfolding r by (cases "x = 4") simp_all
  from radix64_four [OF bd(2,3,4), of x]
  show "0xF0 + r div 262144 = a" "0x80 + (r div 4096) mod 64 = b"
    "0x80 + (r div 64) mod 64 = c" "0x80 + r mod 64 = d"
    by (simp_all only: r x y z w)
qed


lemma DecodeRune_ascii:
  "(of_char c :: nat) < 0x80 \<Longrightarrow> DecodeRune (c # cs) = (of_char c, 1)"
  by (simp add: DecodeRune_def)

lemma DecodeRune_bad_lead:
  "\<not> (of_char c :: nat) < 0x80 \<Longrightarrow> (of_char c :: nat) < 0xC2 \<or> 0xF4 < (of_char c :: nat) \<Longrightarrow>
     DecodeRune (c # cs) = (RuneError, 1)"
  by (simp add: DecodeRune_def)

lemma DecodeRune_lead2:
  assumes "0xC2 \<le> (of_char c :: nat)" "(of_char c :: nat) < 0xE0"
  shows "DecodeRune (c # cs) =
     (case cs of
        [] \<Rightarrow> (RuneError, 1)
      | c1 # t \<Rightarrow>
          if (of_char c1 :: nat) < 0x80 \<or> 0xBF < (of_char c1 :: nat) then (RuneError, 1)
          else ((of_char c mod 32) * 64 + of_char c1 mod 64, 2))"
  using assms
  by (cases cs) (simp_all add: DecodeRune_def rune_size_def accept_lo_def accept_hi_def)

lemma DecodeRune_lead3:
  assumes "0xE0 \<le> (of_char c :: nat)" "(of_char c :: nat) < 0xF0"
  shows "DecodeRune (c # cs) =
     (case cs of
        c1 # c2 # t \<Rightarrow>
          if (of_char c1 :: nat) < accept_lo (of_char c) \<or> accept_hi (of_char c) < (of_char c1 :: nat)
          then (RuneError, 1)
          else if (of_char c2 :: nat) < 0x80 \<or> 0xBF < (of_char c2 :: nat) then (RuneError, 1)
          else ((of_char c mod 16) * 4096 + (of_char c1 mod 64) * 64 + of_char c2 mod 64, 3)
      | _ \<Rightarrow> (RuneError, 1))"
proof -
  from assms have sz: "rune_size (of_char c) = 3"
    by (simp add: rune_size_def)
  from assms have lead: "\<not> (of_char c :: nat) < 0x80" "\<not> (of_char c :: nat) < 0xC2"
    "\<not> 0xF4 < (of_char c :: nat)"
    by simp_all
  show ?thesis
  proof (cases cs)
    case Nil
    then show ?thesis by (simp add: DecodeRune_def sz lead)
  next
    case (Cons c1 t)
    then show ?thesis
      by (cases t) (simp_all add: DecodeRune_def sz lead)
  qed
qed

lemma DecodeRune_lead4:
  assumes "0xF0 \<le> (of_char c :: nat)" "(of_char c :: nat) \<le> 0xF4"
  shows "DecodeRune (c # cs) =
     (case cs of
        c1 # c2 # c3 # t \<Rightarrow>
          if (of_char c1 :: nat) < accept_lo (of_char c) \<or> accept_hi (of_char c) < (of_char c1 :: nat)
          then (RuneError, 1)
          else if (of_char c2 :: nat) < 0x80 \<or> 0xBF < (of_char c2 :: nat) then (RuneError, 1)
          else if (of_char c3 :: nat) < 0x80 \<or> 0xBF < (of_char c3 :: nat) then (RuneError, 1)
          else ((of_char c mod 8) * 262144 + (of_char c1 mod 64) * 4096 +
                (of_char c2 mod 64) * 64 + of_char c3 mod 64, 4)
      | _ \<Rightarrow> (RuneError, 1))"
proof -
  from assms have sz: "rune_size (of_char c) = 4"
    by (simp add: rune_size_def)
  from assms have lead: "\<not> (of_char c :: nat) < 0x80" "\<not> (of_char c :: nat) < 0xC2"
    "\<not> 0xF4 < (of_char c :: nat)"
    by simp_all
  show ?thesis
  proof (cases cs)
    case Nil
    then show ?thesis by (simp add: DecodeRune_def sz lead)
  next
    case (Cons c1 t)
    show ?thesis
    proof (cases t)
      case Nil
      with Cons show ?thesis by (simp add: DecodeRune_def sz lead)
    next
      case (Cons c2 t')
      with \<open>cs = c1 # t\<close> show ?thesis
        by (cases t') (simp_all add: DecodeRune_def sz lead)
    qed
  qed
qed


lemma DecodeRune_two:
  assumes lead: "0xC2 \<le> (of_char c :: nat)" "(of_char c :: nat) < 0xE0"
    and D: "DecodeRune (c # cs) = (r, sz)"
    and ok: "\<not> (r = RuneError \<and> sz = 1)"
  shows "\<exists>c1 t. cs = c1 # t \<and> sz = 2 \<and> 0x80 \<le> (of_char c1 :: nat) \<and>
           EncodeRune r = [c, c1] \<and> (\<forall>u. DecodeRune ([c, c1] @ u) = (r, 2))"
proof -
  from D ok obtain c1 t where cs: "cs = c1 # t"
    by (cases cs) (auto simp add: DecodeRune_lead2 [OF lead])
  from D ok cs have c1: "0x80 \<le> (of_char c1 :: nat)" "(of_char c1 :: nat) \<le> 0xBF"
    and r: "r = (of_char c mod 32) * 64 + of_char c1 mod 64" and sz: "sz = 2"
    by (auto simp add: DecodeRune_lead2 [OF lead] split: if_splits)
  note b = rune_bytes_two [OF lead c1 r]
  from b have "EncodeRune r = [c, c1]"
    by (simp add: EncodeRune_def)
  moreover from c1 r have "DecodeRune ([c, c1] @ u) = (r, 2)" for u
    by (simp add: DecodeRune_lead2 [OF lead])
  ultimately show ?thesis
    using cs sz c1 by simp
qed

lemma DecodeRune_three:
  assumes lead: "0xE0 \<le> (of_char c :: nat)" "(of_char c :: nat) < 0xF0"
    and D: "DecodeRune (c # cs) = (r, sz)"
    and ok: "\<not> (r = RuneError \<and> sz = 1)"
  shows "\<exists>c1 c2 t. cs = c1 # c2 # t \<and> sz = 3 \<and> 0x80 \<le> (of_char c1 :: nat) \<and>
           0x80 \<le> (of_char c2 :: nat) \<and>
           EncodeRune r = [c, c1, c2] \<and> (\<forall>u. DecodeRune ([c, c1, c2] @ u) = (r, 3))"
proof -
  from D ok obtain c1 c2 t where cs: "cs = c1 # c2 # t"
    by (cases cs; cases "tl cs") (auto simp add: DecodeRune_lead3 [OF lead])
  from D ok cs have c1: "accept_lo (of_char c) \<le> (of_char c1 :: nat)"
      "(of_char c1 :: nat) \<le> accept_hi (of_char c)"
    and c2: "0x80 \<le> (of_char c2 :: nat)" "(of_char c2 :: nat) \<le> 0xBF"
    and r: "r = (of_char c mod 16) * 4096 + (of_char c1 mod 64) * 64 + of_char c2 mod 64"
    and sz: "sz = 3"
    by (auto simp add: DecodeRune_lead3 [OF lead] split: if_splits)
  note b = rune_bytes_three [OF lead c1 c2 r]
  from c1 have c1': "0x80 \<le> (of_char c1 :: nat)"
    by (simp add: accept_lo_def split: if_splits)
  from b have "\<not> r \<le> 0x7F" "\<not> r \<le> 0x7FF" "r \<le> 0xFFFF"
    "\<not> (MaxRune < r \<or> (0xD800 \<le> r \<and> r \<le> 0xDFFF))"
    by (auto simp add: MaxRune_def)
  then have "EncodeRune r = EncodeRune3 r"
    by (simp only: EncodeRune_def if_False if_True)
  with b(4-6) have "EncodeRune r = [c, c1, c2]"
    by (simp add: EncodeRune3_def)
  moreover from c1 c2 r have "DecodeRune ([c, c1, c2] @ u) = (r, 3)" for u
    by (simp add: DecodeRune_lead3 [OF lead])
  ultimately show ?thesis
    using cs sz c1' c2 by simp
qed

lemma DecodeRune_four:
  assumes lead: "0xF0 \<le> (of_char c :: nat)" "(of_char c :: nat) \<le> 0xF4"
    and D: "DecodeRune (c # cs) = (r, sz)"
    and ok: "\<not> (r = RuneError \<and> sz = 1)"
  shows "\<exists>c1 c2 c3 t. cs = c1 # c2 # c3 # t \<and> sz = 4 \<and> 0x80 \<le> (of_char c1 :: nat) \<and>
           0x80 \<le> (of_char c2 :: nat) \<and> 0x80 \<le> (of_char c3 :: nat) \<and>
           EncodeRune r = [c, c1, c2, c3] \<and> (\<forall>u. DecodeRune ([c, c1, c2, c3] @ u) = (r, 4))"
proof -
  from D ok obtain c1 c2 c3 t where cs: "cs = c1 # c2 # c3 # t"
    by (cases cs; cases "tl cs"; cases "tl (tl cs)") (auto simp add: DecodeRune_lead4 [OF lead])
  from D ok cs have c1: "accept_lo (of_char c) \<le> (of_char c1 :: nat)"
      "(of_char c1 :: nat) \<le> accept_hi (of_char c)"
    and c2: "0x80 \<le> (of_char c2 :: nat)" "(of_char c2 :: nat) \<le> 0xBF"
    and c3: "0x80 \<le> (of_char c3 :: nat)" "(of_char c3 :: nat) \<le> 0xBF"
    and r: "r = (of_char c mod 8) * 262144 + (of_char c1 mod 64) * 4096 +
                (of_char c2 mod 64) * 64 + of_char c3 mod 64"
    and sz: "sz = 4"
    by (auto simp add: DecodeRune_lead4 [OF lead] split: if_splits)
  note b = rune_bytes_four [OF lead c1 c2 c3 r]
  from c1 have c1': "0x80 \<le> (of_char c1 :: nat)"
    by (simp add: accept_lo_def split: if_splits)
  from b have "\<not> r \<le> 0x7F" "\<not> r \<le> 0x7FF" "\<not> r \<le> 0xFFFF"
    "\<not> (MaxRune < r \<or> (0xD800 \<le> r \<and> r \<le> 0xDFFF))"
    by (auto simp add: MaxRune_def)
  then have "EncodeRune r =
      [char_of (0xF0 + r div 262144), char_of (0x80 + (r div 4096) mod 64),
       char_of (0x80 + (r div 64) mod 64), char_of (0x80 + r mod 64)]"
    by (simp only: EncodeRune_def if_False if_True)
  with b(3-6) have "EncodeRune r = [c, c1, c2, c3]"
    by simp
  moreover from c1 c2 c3 r have "DecodeRune ([c, c1, c2, c3] @ u) = (r, 4)" for u
    by (simp add: DecodeRune_lead4 [OF lead])
  ultimately show ?thesis
    using cs sz c1' c2 c3 by simp
qed

lemma DecodeRune_multi:
  assumes na: "\<not> (of_char c :: nat) < 0x80"
    and D: "DecodeRune (c # cs) = (r, sz)"
    and ok: "\<not> (r = RuneError \<and> sz = 1)"
  shows "EncodeRune r = take sz (c # cs)"
    and "\<forall>x \<in> set (take sz (c # cs)). 0x80 \<le> (of_char x :: nat)"
    and "DecodeRune (take sz (c # cs) @ u) = (r, sz)"
    and "2 \<le> sz" and "sz \<le> length (c # cs)"
proof -
  have "\<not> ((of_char c :: nat) < 0xC2 \<or> 0xF4 < (of_char c :: nat))"
  proof
    assume "(of_char c :: nat) < 0xC2 \<or> 0xF4 < (of_char c :: nat)"
    from DecodeRune_bad_lead [OF na this, of cs] D ok show False by simp
  qed
  then have lead: "0xC2 \<le> (of_char c :: nat)" "(of_char c :: nat) \<le> 0xF4"
    by simp_all
  consider (two) "(of_char c :: nat) < 0xE0"
    | (three) "0xE0 \<le> (of_char c :: nat)" "(of_char c :: nat) < 0xF0"
    | (four) "0xF0 \<le> (of_char c :: nat)"
    by linarith
  then have "EncodeRune r = take sz (c # cs) \<and>
    (\<forall>x \<in> set (take sz (c # cs)). 0x80 \<le> (of_char x :: nat)) \<and>
    DecodeRune (take sz (c # cs) @ u) = (r, sz) \<and> 2 \<le> sz \<and> sz \<le> length (c # cs)"
  proof cases
    case two
    from DecodeRune_two [OF lead(1) two D ok] na show ?thesis by auto
  next
    case three
    from DecodeRune_three [OF three D ok] na show ?thesis by auto
  next
    case four
    from DecodeRune_four [OF four lead(2) D ok] na show ?thesis by auto
  qed
  then show "EncodeRune r = take sz (c # cs)"
    and "\<forall>x \<in> set (take sz (c # cs)). 0x80 \<le> (of_char x :: nat)"
    and "DecodeRune (take sz (c # cs) @ u) = (r, sz)"
    and "2 \<le> sz" and "sz \<le> length (c # cs)"
    by blast+
qed


section \<open>Escaping and unquoting\<close>

lemma prepend_Nil: "prepend [] y = y"
  by (cases y) auto

lemma prepend_prepend: "prepend a (prepend b y) = prepend (a @ b) y"
  by (cases y) auto

lemma cons_opt_Nil: "cons_opt [] y = y"
  by (cases y) auto

lemma cons_opt_cons_opt: "cons_opt a (cons_opt b y) = cons_opt (a @ b) y"
  by (cases y) auto

lemma hexval_hex_all: "\<forall>n<16. hexval (hex n) = Some n"
  by (simp add: eval_nat_numeral All_less_Suc hex_def hexval_def)

lemma hexval_hex: "n < 16 \<Longrightarrow> hexval (hex n) = Some n"
  using hexval_hex_all by blast

lemma scan_plain:
  "c \<noteq> CHR 0x22 \<Longrightarrow> c \<noteq> CHR 0x5C \<Longrightarrow> \<not> (of_char c :: nat) < 0x20 \<Longrightarrow>
     scan_literal (c # cs) = prepend [c] (scan_literal cs)"
  by simp

lemma high_plain:
  assumes "0x80 \<le> (of_char c :: nat)"
  shows "c \<noteq> CHR 0x22" "c \<noteq> CHR 0x5C" "\<not> (of_char c :: nat) < 0x20"
  using assms by auto

lemma scan_high:
  "\<forall>x \<in> set xs. 0x80 \<le> (of_char x :: nat) \<Longrightarrow>
     scan_literal (xs @ ys) = prepend xs (scan_literal ys)"
proof (induction xs)
  case Nil
  show ?case by (simp add: prepend_Nil)
next
  case (Cons x xs)
  then have "0x80 \<le> (of_char x :: nat)" by simp
  from scan_plain [OF high_plain [OF this]] Cons show ?case
    by (simp add: prepend_prepend)
qed

lemma scan_escu:
  "hexval h1 \<noteq> None \<Longrightarrow> hexval h2 \<noteq> None \<Longrightarrow> hexval h3 \<noteq> None \<Longrightarrow> hexval h4 \<noteq> None \<Longrightarrow>
     scan_literal (CHR 0x5C # CHR ''u'' # h1 # h2 # h3 # h4 # cs) =
       prepend [CHR 0x5C, CHR ''u'', h1, h2, h3, h4] (scan_literal cs)"
  by simp

lemma hexval_0: "hexval CHR ''0'' = Some 0"
  by (simp add: hexval_def)

lemma scan_escape_ascii:
  assumes "(of_char b :: nat) < 0x80" "\<not> htmlSafe b"
  shows "scan_literal (escape_ascii b @ cs) = prepend (escape_ascii b) (scan_literal cs)"
proof -
  have h: "hexval (hex (of_char b div 16)) \<noteq> None" "hexval (hex (of_char b mod 16)) \<noteq> None"
    using assms(1) by (simp_all add: hexval_hex)
  show ?thesis
    using scan_escu [OF _ _ h, of "CHR ''0''" "CHR ''0''" cs]
    by (simp add: escape_ascii_def hexval_0)
qed

lemma scan_safe:
  assumes "htmlSafe b"
  shows "scan_literal (b # cs) = prepend [b] (scan_literal cs)"
  using assms by (simp add: htmlSafe_def)

lemma scan_escape: "scan_literal (escape s @ CHR 0x22 # rest) = Some (escape s, rest)"
proof (induction s rule: escape.induct)
  case 1
  show ?case by simp
next
  case (2 b bs)
  show ?case
  proof (cases "(of_char b :: nat) < 0x80")
    case True
    show ?thesis
    proof (cases "htmlSafe b")
      case safe: True
      with True "2.IH"(1) scan_safe [OF safe] show ?thesis
        by simp
    next
      case False
      with True "2.IH"(2) scan_escape_ascii [OF True False] show ?thesis
        by simp
    qed
  next
    case False
    obtain c sz where D: "DecodeRune (b # bs) = (c, sz)"
      by (cases "DecodeRune (b # bs)")
    show ?thesis
    proof (cases "c = RuneError \<and> sz = 1")
      case True
      with False D have e: "escape (b # bs) =
          [CHR 0x5C, CHR ''u'', CHR ''f'', CHR ''f'', CHR ''f'', CHR ''d''] @
          escape (drop sz (b # bs))"
        by simp
      have "hexval CHR ''f'' \<noteq> None" "hexval CHR ''d'' \<noteq> None"
        by (simp_all add: hexval_def)
      from scan_escu [OF this(1) this(1) this(1) this(2)]
        "2.IH"(3) [OF False D [symmetric] True]
      show ?thesis
        by (subst (1 2) e) (simp del: escape.simps scan_literal.simps)
    next
      case ok: False
      show ?thesis
      proof (cases "c = 0x2028 \<or> c = 0x2029")
        case True
        with ok False D have e: "escape (b # bs) =
            [CHR 0x5C, CHR ''u'', CHR ''2'', CHR ''0'', CHR ''2'', hex (c mod 16)] @
            escape (drop sz (b # bs))"
          by auto
        from True have "c mod 16 < 16" by auto
        from hexval_hex [OF this]
        have "hexval CHR ''2'' \<noteq> None" "hexval CHR ''0'' \<noteq> None" "hexval (hex (c mod 16)) \<noteq> None"
          by (simp_all add: hexval_def)
        from scan_escu [OF this(1) this(2) this(1) this(3)]
          "2.IH"(4) [OF False D [symmetric] ok True]
        show ?thesis
          by (subst (1 2) e) (simp del: escape.simps scan_literal.simps)
      next
        case no: False
        with ok False D have e: "escape (b # bs) =
            take sz (b # bs) @ escape (drop sz (b # bs))"
          by auto
        from DecodeRune_multi(2) [OF False D ok]
        have "scan_literal (take sz (b # bs) @ ys) = prepend (take sz (b # bs)) (scan_literal ys)"
          for ys
          by (rule scan_high)
        from this [of "escape (drop sz (b # bs)) @ CHR 0x22 # rest"]
          "2.IH"(5) [OF False D [symmetric] ok no]
        show ?thesis
          by (subst (1 2) e) (simp del: escape.simps scan_literal.simps)
      qed
    qed
  qed
qed


lemma unquote_loop_plain:
  "c \<noteq> CHR 0x5C \<Longrightarrow> c \<noteq> CHR 0x22 \<Longrightarrow> \<not> (of_char c :: nat) < 0x20 \<Longrightarrow>
   (of_char c :: nat) < 0x80 \<Longrightarrow> unquote_loop (c # cs) = cons_opt [c] (unquote_loop cs)"
  by simp

lemma unquote_loop_multi:
  assumes "\<not> (of_char c :: nat) < 0x80" "DecodeRune (c # cs) = (rr, sz)"
  shows "unquote_loop (c # cs) = cons_opt (EncodeRune rr) (unquote_loop (drop sz (c # cs)))"
proof -
  from assms(1) have "0x80 \<le> (of_char c :: nat)" by simp
  from high_plain [OF this] assms show ?thesis by simp
qed

lemma getu4_Cons:
  assumes "hexval h1 = Some a" "hexval h2 = Some b" "hexval h3 = Some c" "hexval h4 = Some d"
  shows "getu4 (CHR 0x5C # CHR ''u'' # h1 # h2 # h3 # h4 # cs) =
           Some (((a * 16 + b) * 16 + c) * 16 + d)"
  using assms by (simp add: getu4_def)

lemma unquote_loop_u:
  assumes "hexval h1 = Some a" "hexval h2 = Some b" "hexval h3 = Some c" "hexval h4 = Some d"
    and "\<not> IsSurrogate (((a * 16 + b) * 16 + c) * 16 + d)"
  shows "unquote_loop (CHR 0x5C # CHR ''u'' # h1 # h2 # h3 # h4 # cs) =
           cons_opt (EncodeRune (((a * 16 + b) * 16 + c) * 16 + d)) (unquote_loop cs)"
  using assms(5) getu4_Cons [OF assms(1-4), of cs] by simp

lemma unquote_loop_escape_ascii:
  assumes b: "(of_char b :: nat) < 0x80" and unsafe: "\<not> htmlSafe b"
  shows "unquote_loop (escape_ascii b @ cs) = cons_opt [b] (unquote_loop cs)"
proof (cases "b = CHR 0x5C \<or> b = CHR 0x22 \<or> b = CHR 0x08 \<or> b = CHR 0x0C \<or> b = CHR 0x0A \<or>
    b = CHR 0x0D \<or> b = CHR 0x09")
  case True
  then show ?thesis
    by (auto simp add: escape_ascii_def)
next
  case False
  then have e: "escape_ascii b =
      [CHR 0x5C, CHR ''u'', CHR ''0'', CHR ''0'', hex (of_char b div 16), hex (of_char b mod 16)]"
    by (simp add: escape_ascii_def)
  from b have h: "hexval (hex (of_char b div 16)) = Some (of_char b div 16)"
    "hexval (hex (of_char b mod 16)) = Some (of_char b mod 16)"
    by (simp_all add: hexval_hex)
  have v: "((0 * 16 + 0) * 16 + of_char b div 16) * 16 + of_char b mod 16 = (of_char b :: nat)"
    by simp
  from b have ns: "\<not> IsSurrogate (of_char b)"
    by (simp add: IsSurrogate_def)
  from b have enc: "EncodeRune (of_char b) = [b]"
    by (simp add: EncodeRune_def)
  from unquote_loop_u [OF hexval_0 hexval_0 h, of cs] ns enc show ?thesis
    unfolding v e by simp
qed

declare unquote_loop.simps(2) [simp del]

lemma unquote_loop_escape: "ValidString s \<Longrightarrow> unquote_loop (escape s) = Some s"
proof (induction s rule: escape.induct)
  case 1
  show ?case by simp
next
  case (2 b bs)
  obtain c sz where D: "DecodeRune (b # bs) = (c, sz)"
    by (cases "DecodeRune (b # bs)")
  from "2.prems" D have ok: "\<not> (c = RuneError \<and> sz = 1)"
    and rest: "ValidString (drop sz (b # bs))"
    by simp_all
  show ?case
  proof (cases "(of_char b :: nat) < 0x80")
    case True
    from D DecodeRune_ascii [OF True, of bs] have "sz = 1"
      by simp
    with rest have vbs: "ValidString bs"
      by simp
    show ?thesis
    proof (cases "htmlSafe b")
      case safe: True
      then have "unquote_loop (b # cs) = cons_opt [b] (unquote_loop cs)" for cs
        by (intro unquote_loop_plain) (simp_all add: htmlSafe_def)
      with True safe "2.IH"(1) [OF True safe vbs] show ?thesis
        by simp
    next
      case False
      with True "2.IH"(2) [OF True False vbs] unquote_loop_escape_ascii [OF True False]
      show ?thesis
        by simp
    qed
  next
    case False
    note m = DecodeRune_multi [OF False D ok]
    from m(5) have len: "length (take sz (b # bs)) = sz"
      by simp
    show ?thesis
    proof (cases "c = 0x2028 \<or> c = 0x2029")
      case True
      with ok False D have e: "escape (b # bs) =
          [CHR 0x5C, CHR ''u'', CHR ''2'', CHR ''0'', CHR ''2'', hex (c mod 16)] @
          escape (drop sz (b # bs))"
        by auto
      from True have "c mod 16 < 16" by auto
      from hexval_hex [OF this]
      have h: "hexval CHR ''2'' = Some 2" "hexval CHR ''0'' = Some 0"
        "hexval (hex (c mod 16)) = Some (c mod 16)"
        by (simp_all add: hexval_def)
      from True have v: "((2 * 16 + 0) * 16 + 2) * 16 + c mod 16 = c"
        by auto
      from True have ns: "\<not> IsSurrogate c"
        by (auto simp add: IsSurrogate_def)
      from unquote_loop_u [OF h(1) h(2) h(1) h(3), of "escape (drop sz (b # bs))"] ns
        "2.IH"(4) [OF False D [symmetric] ok True rest] m(1)
      show ?thesis
        unfolding v by (subst e) (simp del: escape.simps)
    next
      case no: False
      with ok False D have e: "escape (b # bs) =
          take sz (b # bs) @ escape (drop sz (b # bs))"
        by auto
      from m(4) obtain k where "sz = Suc k"
        by (cases sz) auto
      then have t: "take sz (b # bs) = b # take k bs"
        by simp
      let ?X = "escape (drop sz (b # bs))"
      have A: "take sz (b # bs) @ ?X = b # (take k bs @ ?X)"
        by (simp add: t)
      from m(3) [of ?X] have "DecodeRune (b # (take k bs @ ?X)) = (c, sz)"
        by (simp only: A)
      from unquote_loop_multi [OF False this]
      have "unquote_loop (take sz (b # bs) @ ?X) =
          cons_opt (EncodeRune c) (unquote_loop (drop sz (take sz (b # bs) @ ?X)))"
        by (simp only: A)
      moreover from len have "drop sz (take sz (b # bs) @ ?X) = ?X"
        by (metis append_eq_conv_conj)
      ultimately have "unquote_loop (take sz (b # bs) @ ?X) =
          cons_opt (EncodeRune c) (unquote_loop ?X)"
        by (simp only:)
      with "2.IH"(5) [OF False D [symmetric] ok no rest] m(1) show ?thesis
        by (subst e) simp
    qed
  qed
qed


declare usual_prefix.simps(2) [simp del]

lemma unquote_loop_usual_prefix:
  "unquote_loop l = cons_opt (take (usual_prefix l) l) (unquote_loop (drop (usual_prefix l) l))"
proof (induction l rule: usual_prefix.induct)
  case 1
  show ?case by simp
next
  case (2 c cs)
  show ?case
  proof (cases "c = CHR 0x5C \<or> c = CHR 0x22 \<or> (of_char c :: nat) < 0x20")
    case True
    then have "usual_prefix (c # cs) = 0"
      by (simp add: usual_prefix.simps(2))
    then show ?thesis
      by (simp add: cons_opt_Nil)
  next
    case special: False
    show ?thesis
    proof (cases "(of_char c :: nat) < 0x80")
      case True
      with special have up: "usual_prefix (c # cs) = Suc (usual_prefix cs)"
        by (simp add: usual_prefix.simps(2))
      from special True have "unquote_loop (c # cs) = cons_opt [c] (unquote_loop cs)"
        by (intro unquote_loop_plain) simp_all
      also have "\<dots> = cons_opt [c]
          (cons_opt (take (usual_prefix cs) cs) (unquote_loop (drop (usual_prefix cs) cs)))"
        using "2.IH"(1) [OF special True] by simp
      finally show ?thesis
        by (simp add: up cons_opt_cons_opt)
    next
      case False
      obtain rr sz where D: "DecodeRune (c # cs) = (rr, sz)"
        by (cases "DecodeRune (c # cs)")
      show ?thesis
      proof (cases "rr = RuneError \<and> sz = 1")
        case True
        with special False D have "usual_prefix (c # cs) = 0"
          by (simp add: usual_prefix.simps(2))
        then show ?thesis
          by (simp add: cons_opt_Nil)
      next
        case ok: False
        let ?l = "c # cs"
        let ?k = "usual_prefix (drop sz ?l)"
        from special False D ok have up: "usual_prefix ?l = sz + ?k"
          by (auto simp add: usual_prefix.simps(2))
        note m = DecodeRune_multi [OF False D ok]
        have "unquote_loop ?l = cons_opt (take sz ?l) (unquote_loop (drop sz ?l))"
          using unquote_loop_multi [OF False D] m(1) by simp
        also have "unquote_loop (drop sz ?l) =
            cons_opt (take ?k (drop sz ?l)) (unquote_loop (drop ?k (drop sz ?l)))"
          using "2.IH"(2) [OF special False D [symmetric] ok] .
        finally have "unquote_loop ?l =
            cons_opt (take sz ?l @ take ?k (drop sz ?l)) (unquote_loop (drop ?k (drop sz ?l)))"
          by (simp only: cons_opt_cons_opt)
        moreover have "take sz ?l @ take ?k (drop sz ?l) = take (sz + ?k) ?l"
          by (simp only: take_add)
        moreover have "drop ?k (drop sz ?l) = drop (sz + ?k) ?l"
          by (simp only: drop_drop add.commute)
        ultimately show ?thesis
          by (simp only: up)
      qed
    qed
  qed
qed

lemma unquote_eq: "unquote l = unquote_loop l"
proof (cases "usual_prefix l = length l")
  case True
  with unquote_loop_usual_prefix [of l] show ?thesis
    by (simp add: unquote_def)
next
  case False
  then have "unquote l =
      cons_opt (take (usual_prefix l) l) (unquote_loop (drop (usual_prefix l) l))"
    by (simp add: unquote_def Let_def)
  with unquote_loop_usual_prefix [of l] show ?thesis
    by (simp only:)
qed

lemma unquote_escape: "ValidString s \<Longrightarrow> unquote (escape s) = Some s"
  by (simp add: unquote_eq unquote_loop_escape)

section \<open>The tokens of a marshalled payload\<close>

lemma tokens_appendString:
  assumes "ValidString s" and "tokens rest = Some ts"
  shows "tokens (appendString s @ rest) = Some (Str s # ts)"
proof -
  have "appendString s @ rest = CHR 0x22 # (escape s @ CHR 0x22 # rest)"
    by (simp add: appendString_def)
  then show ?thesis
    using scan_escape [of s rest] unquote_escape [OF assms(1)] assms(2)
    by simp
qed

lemma tokens_delimiter:
  assumes "delimiter c = Some t" and "tokens rest = Some ts"
  shows "tokens (c # rest) = Some (t # ts)"
proof -
  from assms have "c \<noteq> CHR 0x22"
    by (auto simp add: delimiter_def)
  with assms show ?thesis
    by simp
qed

lemma delimiters:
  "delimiter CHR ''{'' = Some LBrace" "delimiter CHR ''}'' = Some RBrace"
  "delimiter CHR ''['' = Some LBrack" "delimiter CHR '']'' = Some RBrack"
  "delimiter CHR '':'' = Some Colon" "delimiter CHR '','' = Some Comma"
  by (simp_all add: delimiter_def)

declare tokens.simps(2) [simp del]

lemma tokens_Join_strings:
  "list_all ValidString vs \<Longrightarrow> tokens rest = Some ts \<Longrightarrow>
     tokens (Join (map appendString vs) '','' @ rest) =
       Some (separated Comma (map (\<lambda>v. [Str v]) vs) @ ts)"
proof (induction vs rule: induct_list012)
  case 1
  then show ?case by simp
next
  case (2 v)
  then show ?case
    by (simp add: tokens_appendString)
next
  case (3 v w vs)
  from "3.prems" have v: "ValidString v" and rest: "list_all ValidString (w # vs)"
    by simp_all
  from tokens_appendString [OF v tokens_delimiter [OF delimiters(6) "3.IH"(2) [OF rest "3.prems"(2)]]]
  show ?case
    by simp
qed

lemma tokens_encode_slice:
  assumes "list_all ValidString vs" and "tokens rest = Some ts"
  shows "tokens (encode_slice vs @ rest) = Some (slice_tokens vs @ ts)"
  using tokens_delimiter [OF delimiters(3)
      tokens_Join_strings [OF assms(1) tokens_delimiter [OF delimiters(4) assms(2)]]]
  by (simp add: encode_slice_def slice_tokens_def)


lemma tokens_Join_members:
  "list_all ValidString ks \<Longrightarrow> \<forall>k \<in> set ks. list_all ValidString (f k) \<Longrightarrow>
   tokens rest = Some ts \<Longrightarrow>
     tokens (Join (map (\<lambda>k. appendString k @ '':'' @ encode_slice (f k)) ks) '','' @ rest) =
       Some (separated Comma
               (map (\<lambda>(k, v). Str k # Colon # slice_tokens v) (map (\<lambda>k. (k, f k)) ks)) @ ts)"
proof (induction ks rule: induct_list012)
  case 1
  then show ?case by simp
next
  case (2 k)
  then have k: "ValidString k" and v: "list_all ValidString (f k)"
    by simp_all
  from tokens_appendString [OF k tokens_delimiter [OF delimiters(5)
        tokens_encode_slice [OF v "2.prems"(3)]]]
  show ?case
    by simp
next
  case (3 k k' ks)
  from "3.prems" have k: "ValidString k" and v: "list_all ValidString (f k)"
    and rest: "list_all ValidString (k' # ks)" "\<forall>k \<in> set (k' # ks). list_all ValidString (f k)"
    by simp_all
  from tokens_appendString [OF k tokens_delimiter [OF delimiters(5)
        tokens_encode_slice [OF v tokens_delimiter [OF delimiters(6)
          "3.IH"(2) [OF rest "3.prems"(3)]]]]]
  show ?case
    by simp
qed

lemma tokens_encode_map:
  assumes "finite (dom m)" and "\<forall>k \<in> dom m. ValidString k"
    and "\<forall>vs \<in> ran m. list_all ValidString vs" and "tokens rest = Some ts"
  shows "tokens (encode_map m @ rest) =
     Some (map_tokens (map (\<lambda>k. (k, case m k of Some v \<Rightarrow> v | None \<Rightarrow> []))
                        (sorted_list_of_set (dom m))) @ ts)"
proof -
  let ?ks = "sorted_list_of_set (dom m)"
  let ?f = "\<lambda>k. case m k of Some v \<Rightarrow> v | None \<Rightarrow> []"
  from assms(1,2) have ks: "list_all ValidString ?ks"
    by (simp add: list_all_iff)
  from assms(3) have vs: "\<forall>k \<in> set ?ks. list_all ValidString (?f k)"
    by (auto simp add: ran_def split: option.split)
  from tokens_delimiter [OF delimiters(1)
      tokens_Join_members [OF ks vs tokens_delimiter [OF delimiters(2) assms(4)]]]
  show ?thesis
    by (simp add: encode_map_def map_tokens_def)
qed

section \<open>Parsing the tokens\<close>

lemma elements_separated:
  "vs \<noteq> [] \<Longrightarrow> elements (separated Comma (map (\<lambda>v. [Str v]) vs) @ RBrack # ts) = Some (vs, ts)"
  by (induction vs rule: induct_list012) simp_all

lemma slice_value_tokens: "slice_value (slice_tokens vs @ ts) = Some (vs, ts)"
proof (cases vs)
  case Nil
  then show ?thesis by (simp add: slice_tokens_def)
next
  case (Cons v vs')
  with elements_separated [of vs ts] show ?thesis
    by (cases vs') (simp_all add: slice_tokens_def)
qed

lemma members_separated:
  "kvs \<noteq> [] \<Longrightarrow>
     members (separated Comma (map (\<lambda>(k, v). Str k # Colon # slice_tokens v) kvs) @ RBrace # ts) =
       Some (kvs, ts)"
proof (induction kvs rule: induct_list012)
  case 1
  then show ?case by simp
next
  case (2 kv)
  obtain k v where kv: "kv = (k, v)" by (cases kv)
  from slice_value_tokens [of v "RBrace # ts"] show ?case
    by (simp add: kv)
next
  case (3 kv kv' kvs)
  obtain k v where kv: "kv = (k, v)" by (cases kv)
  from slice_value_tokens [of v
      "Comma # separated Comma (map (\<lambda>(k, v). Str k # Colon # slice_tokens v) (kv' # kvs)) @
        RBrace # ts"] "3.IH"(2)
  show ?case
    by (simp add: kv)
qed

lemma map_value_tokens:
  "map_value (map_tokens kvs @ ts) = Some (foldl (\<lambda>m (k, v). m(k \<mapsto> v)) Map.empty kvs, ts)"
proof (cases kvs)
  case Nil
  then show ?thesis by (simp add: map_tokens_def)
next
  case (Cons kv kvs')
  obtain k v where kv: "kv = (k, v)" by (cases kv)
  from members_separated [of kvs ts] Cons kv show ?thesis
    by (cases kvs') (simp_all add: map_tokens_def)
qed

lemma foldl_update:
  "foldl (\<lambda>m (k, v). m(k \<mapsto> v)) m0 kvs = m0 ++ map_of (rev kvs)"
proof (induction kvs arbitrary: m0)
  case Nil
  show ?case by simp
next
  case (Cons kv kvs)
  obtain k v where kv: "kv = (k, v)" by (cases kv)
  have "foldl (\<lambda>m (k, v). m(k \<mapsto> v)) m0 (kv # kvs) =
      foldl (\<lambda>m (k, v). m(k \<mapsto> v)) (m0(k \<mapsto> v)) kvs"
    by (simp only: kv foldl_Cons prod.case)
  also have "\<dots> = m0(k \<mapsto> v) ++ map_of (rev kvs)"
    by (rule Cons)
  also have "\<dots> = m0 ++ (map_of (rev kvs @ [(k, v)]))"
    by (rule ext) (simp add: map_add_def split: option.split)
  finally show ?case
    by (simp only: kv rev.simps)
qed

lemma map_of_sorted_keys:
  assumes "finite (dom m)"
  shows "map_of (rev (map (\<lambda>k. (k, case m k of Some v \<Rightarrow> v | None \<Rightarrow> []))
                  (sorted_list_of_set (dom m)))) = m"
proof (rule ext)
  fix k
  let ?l = "rev (map (\<lambda>k. (k, case m k of Some v \<Rightarrow> v | None \<Rightarrow> [])) (sorted_list_of_set (dom m)))"
  have d: "distinct (map fst ?l)"
    by (simp add: rev_map [symmetric] comp_def)
  show "map_of ?l k = m k"
  proof (cases "m k")
    case None
    with assms have "k \<notin> fst ` set ?l"
      by (auto simp add: image_iff)
    with None show ?thesis
      by (simp add: map_of_eq_None_iff)
  next
    case (Some v)
    with assms have "(k, v) \<in> set ?l"
      by (auto simp add: image_iff intro!: bexI [of _ k])
    from map_of_is_SomeI [OF d this] Some show ?thesis
      by simp
  qed
qed


section \<open>The round trip\<close>

lemma ValidString_names:
  "ValidString ''method''" "ValidString ''uri''" "ValidString ''headers''" "ValidString ''body''"
  by (simp_all add: DecodeRune_ascii RuneError_def)

lemma tokens_json_Marshal:
  assumes m: "ValidString (Method p)" and u: "ValidString (URI p)" and b: "ValidString (Body p)"
    and h: "finite (dom (Headers p))" "\<forall>k \<in> dom (Headers p). ValidString k"
      "\<forall>vs \<in> ran (Headers p). list_all ValidString vs"
  shows "\<exists>data. json_Marshal p = Inr data \<and> tokens data = Some (LBrace # payload_tokens p)"
proof -
  have t1: "tokens (CHR ''}'' # []) = Some [RBrace]"
    by (rule tokens_delimiter [OF delimiters(2)]) simp
  note t2 = tokens_appendString [OF ValidString_names(4)
      tokens_delimiter [OF delimiters(5) tokens_appendString [OF b t1]]]
  note t3 = tokens_appendString [OF ValidString_names(3)
      tokens_delimiter [OF delimiters(5) tokens_encode_map [OF h
        tokens_delimiter [OF delimiters(6) t2]]]]
  note t4 = tokens_appendString [OF ValidString_names(2)
      tokens_delimiter [OF delimiters(5) tokens_appendString [OF u
        tokens_delimiter [OF delimiters(6) t3]]]]
  note t5 = tokens_delimiter [OF delimiters(1) tokens_appendString [OF ValidString_names(1)
      tokens_delimiter [OF delimiters(5) tokens_appendString [OF m
        tokens_delimiter [OF delimiters(6) t4]]]]]
  from t5 show ?thesis
    by (simp add: json_Marshal_def payload_tokens_def)
qed

lemma fields_payload_tokens:
  "fields \<lparr>Method = [], URI = [], Headers = Map.empty, Body = []\<rparr>
     (Str ''method'' # Colon # Str m # Comma # Str ''uri'' # Colon # Str u # Comma #
      Str ''headers'' # Colon # map_tokens kvs @ [Comma, Str ''body'', Colon, Str b, RBrace]) =
   Some (\<lparr>Method = m, URI = u,
          Headers = foldl (\<lambda>m (k, v). m(k \<mapsto> v)) Map.empty kvs, Body = b\<rparr>, [])"
  using map_value_tokens [of kvs "[Comma, Str ''body'', Colon, Str b, RBrace]"]
  by (simp add: set_field_def)

text \<open>
  C1, as amended. For every envelope whose method, request target, header names,
  header values and body are valid UTF-8 (the header map being finite, as a Go map
  is), decoding the bytes that \<open>json.Marshal\<close> produces gives the envelope back:
  method, target, every header name with all its values in their order, and body.
  These bytes are what \<open>pushToRedis\<close> gives to \<open>LPush\<close> and \<open>produce\<close> to
  \<open>ProduceSync\<close>.
\<close>

theorem json_round_trip:
  assumes "ValidString (Method p)" and "ValidString (URI p)" and "ValidString (Body p)"
    and "finite (dom (Headers p))" and "\<forall>k \<in> dom (Headers p). ValidString k"
    and "\<forall>vs \<in> ran (Headers p). list_all ValidString vs"
  shows "round_trip p = Inr p
     \<and> (\<exists>data. json_Marshal p = Inr data \<and> json_Unmarshal data = Inr p
           \<and> snd (pushToRedis json_Marshal R s p w) =
               w @ [LPushCall (RedisClient s) ''request_queue'' data]
           \<and> snd (produce json_Marshal K s' p w) =
               w @ [ProduceSyncCall (KafkaClient s') \<lparr>Topic = ''foo'', Value = data\<rparr>])"
proof -
  from tokens_json_Marshal [OF assms] obtain data
    where d: "json_Marshal p = Inr data" and t: "tokens data = Some (LBrace # payload_tokens p)"
    by blast
  let ?kvs = "map (\<lambda>k. (k, case Headers p k of Some v \<Rightarrow> v | None \<Rightarrow> []))
                 (sorted_list_of_set (dom (Headers p)))"
  have "foldl (\<lambda>m (k, v). m(k \<mapsto> v)) Map.empty ?kvs = Headers p"
    using map_of_sorted_keys [OF assms(4)] by (simp add: foldl_update)
  with fields_payload_tokens [of "Method p" "URI p" ?kvs "Body p"]
  have "fields \<lparr>Method = [], URI = [], Headers = Map.empty, Body = []\<rparr> (payload_tokens p) =
      Some (p, [])"
    by (simp add: payload_tokens_def)
  with t have u: "json_Unmarshal data = Inr p"
    by (simp add: json_Unmarshal_def payload_tokens_def)
  from d u have "round_trip p = Inr p"
    by (simp add: round_trip_def)
  moreover from d have "snd (pushToRedis json_Marshal R s p w) =
      w @ [LPushCall (RedisClient s) ''request_queue'' data]"
    by (simp add: pushToRedis_def)
  moreover from d have "snd (produce json_Marshal K s' p w) =
      w @ [ProduceSyncCall (KafkaClient s') \<lparr>Topic = ''foo'', Value = data\<rparr>]"
    by (simp add: produce_def Let_def)
  ultimately show ?thesis
    using d u by blast
qed

lemma ValidString_ascii: "\<forall>c \<in> set s. (of_char c :: nat) < 0x80 \<Longrightarrow> ValidString s"
  by (induction s) (simp_all add: DecodeRune_ascii RuneError_def)

declare ValidString.simps(2) [simp del]
declare escape.simps(2) [simp del]

lemma EncodeRune_RuneError: "EncodeRune 0xFFFD = [CHR 0xEF, CHR 0xBF, CHR 0xBD]"
proof -
  have c: "char_of (239::nat) = CHR 0xEF" "char_of (191::nat) = CHR 0xBF"
    "char_of (189::nat) = CHR 0xBD"
    by (rule of_char_eqI [where ?'a = nat], simp)+
  have "EncodeRune 0xFFFD = [char_of (239::nat), char_of (191::nat), char_of (189::nat)]"
    by (simp add: EncodeRune_def EncodeRune3_def MaxRune_def)
  with c show ?thesis by (simp only:)
qed

lemma tokens_invalid_byte:
  assumes "tokens rest = Some ts"
  shows "tokens (appendString [CHR 0xFF] @ rest) = Some (Str [CHR 0xEF, CHR 0xBF, CHR 0xBD] # ts)"
proof -
  have e: "escape [CHR 0xFF] = [CHR 0x5C, CHR ''u'', CHR ''f'', CHR ''f'', CHR ''f'', CHR ''d'']"
    by (simp add: escape.simps(2) DecodeRune_def RuneError_def)
  have h: "hexval CHR ''f'' = Some 15" "hexval CHR ''d'' = Some 13"
    by (simp_all add: hexval_def)
  have s: "scan_literal (escape [CHR 0xFF] @ CHR 0x22 # rest) = Some (escape [CHR 0xFF], rest)"
    by (rule scan_escape)
  have v: "((15 * 16 + 15) * 16 + 15) * 16 + 13 = (0xFFFD :: nat)"
    by simp
  have "\<not> IsSurrogate 0xFFFD"
    by (simp add: IsSurrogate_def)
  with unquote_loop_u [OF h(1) h(1) h(1) h(2), of "[]"]
  have "unquote_loop (escape [CHR 0xFF]) = Some [CHR 0xEF, CHR 0xBF, CHR 0xBD]"
    unfolding v e by (simp add: EncodeRune_RuneError)
  then have u: "unquote (escape [CHR 0xFF]) = Some [CHR 0xEF, CHR 0xBF, CHR 0xBD]"
    by (simp only: unquote_eq)
  have "appendString [CHR 0xFF] @ rest = CHR 0x22 # (escape [CHR 0xFF] @ CHR 0x22 # rest)"
    by (simp add: appendString_def)
  then show ?thesis
    using s u assms by (simp add: tokens.simps(2))
qed

text \<open>
  The claim as the specification words it, for every envelope: a body of the one byte
  \<open>0xFF\<close>, which \<open>parseRequest\<close> stores as it is, comes back as the three bytes of
  U+FFFD.
\<close>

lemma round_trip_invalid_byte:
  "round_trip \<lparr>Method = ''POST'', URI = ''/upload'', Headers = Map.empty, Body = [CHR 0xFF]\<rparr> =
     Inr \<lparr>Method = ''POST'', URI = ''/upload'', Headers = Map.empty,
          Body = [CHR 0xEF, CHR 0xBF, CHR 0xBD]\<rparr>"
proof -
  have v: "ValidString ''POST''" "ValidString ''/upload''"
    by (rule ValidString_ascii, simp)+
  have t1: "tokens (CHR ''}'' # []) = Some [RBrace]"
    by (rule tokens_delimiter [OF delimiters(2)]) simp
  note t2 = tokens_appendString [OF ValidString_names(4)
      tokens_delimiter [OF delimiters(5) tokens_invalid_byte [OF t1]]]
  have t3': "tokens (encode_map Map.empty @ rest) = Some (LBrace # RBrace # ts)"
    if "tokens rest = Some ts" for rest ts
    using tokens_delimiter [OF delimiters(1) tokens_delimiter [OF delimiters(2) that]]
    by (simp add: encode_map_def)
  note t3 = tokens_appendString [OF ValidString_names(3)
      tokens_delimiter [OF delimiters(5) t3' [OF tokens_delimiter [OF delimiters(6) t2]]]]
  note t4 = tokens_appendString [OF ValidString_names(2)
      tokens_delimiter [OF delimiters(5) tokens_appendString [OF v(2)
        tokens_delimiter [OF delimiters(6) t3]]]]
  note t5 = tokens_delimiter [OF delimiters(1) tokens_appendString [OF ValidString_names(1)
      tokens_delimiter [OF delimiters(5) tokens_appendString [OF v(1)
        tokens_delimiter [OF delimiters(6) t4]]]]]
  from t5 show ?thesis
    by (simp add: round_trip_def json_Marshal_def json_Unmarshal_def set_field_def)
qed

theorem json_round_trip_counterexample:
  "round_trip \<lparr>Method = ''POST'', URI = ''/upload'', Headers = Map.empty, Body = [CHR 0xFF]\<rparr> \<noteq>
     Inr \<lparr>Method = ''POST'', URI = ''/upload'', Headers = Map.empty, Body = [CHR 0xFF]\<rparr>"
  by (simp add: round_trip_invalid_byte)


theorem json_round_trip_witness:
  "round_trip \<lparr>Method = ''GET'', URI = ''/foo/bar?x=1'',
      Headers = [''Accept'' \<mapsto> [''text/plain''], ''X-Tag'' \<mapsto> [''a'', ''b'']], Body = []\<rparr> =
   Inr \<lparr>Method = ''GET'', URI = ''/foo/bar?x=1'',
      Headers = [''Accept'' \<mapsto> [''text/plain''], ''X-Tag'' \<mapsto> [''a'', ''b'']], Body = []\<rparr>"
proof -
  have v: "ValidString ''GET''" "ValidString ''/foo/bar?x=1''"
    "ValidString ''Accept''" "ValidString ''X-Tag''" "ValidString ''text/plain''"
    "ValidString ''a''" "ValidString ''b''"
    by (rule ValidString_ascii, simp)+
  have r: "ran [''Accept'' \<mapsto> [''text/plain''], ''X-Tag'' \<mapsto> [''a'', ''b'']] =
      {[''a'', ''b''], [''text/plain'']}"
    by simp
  show ?thesis
    by (rule json_round_trip [THEN conjunct1]) (simp_all add: v r)
qed

end
